theory Spec2Isabelle
  imports Main "HOL-Library.Word" "HOL-Library.Sublist" "HOL-Library.Multiset"
begin

unbundle bit_operations_syntax

section \<open>The PDF writer of pdf.go\<close>

text \<open>
  The development embeds \<^verbatim>\<open>src/pdf.go\<close>: the writer state \<^verbatim>\<open>PDFWriter\<close>, the
  two low-level writes, the value serializer \<^verbatim>\<open>writeVal\<close>, the two resource
  lookups, \<^verbatim>\<open>WriteObject\<close> and \<^verbatim>\<open>Close\<close>. Mutation of the receiver is explicit
  state passing: every method takes the writer last and returns the new one.

  Go's \<^verbatim>\<open>int\<close> is modelled as \<open>int\<close>: positions and counts stay far below \<open>2 ^ 63\<close>
  for any output that can exist, so no wrap-around is written out. A \<^verbatim>\<open>[]byte\<close> and
  a Go \<^verbatim>\<open>string\<close> are both byte sequences, modelled as \<open>string\<close>.
\<close>

subsection \<open>Bytes that string literals cannot hold\<close>

definition NL :: string where
  "NL = [CHR 0x0A]"

definition BSL :: char where
  "BSL = CHR 0x5C"

subsection \<open>The sink: an \<^verbatim>\<open>io.Writer\<close>\<close>

text \<open>
  An \<^verbatim>\<open>io.Writer\<close> is any object with a \<^verbatim>\<open>Write(p) (n, err)\<close> method that obeys
  the interface's contract: \<open>0 \<le> n \<le> len p\<close>, and a non-nil error whenever
  \<open>n < len p\<close>. The model keeps the bytes the sink has accepted (\<open>out\<close>) and a
  script that fixes how each coming call behaves: \<open>Accept\<close> takes the whole
  block and reports no error, \<open>Fail k e\<close> takes at most \<open>k\<close> bytes of the block
  and reports \<open>e\<close>. When the script is used up every call is accepted. Since the
  writer stops calling the sink after the first error, every behaviour of a
  contract-abiding sink that the writer can observe is one of these scripts.
\<close>

datatype error = ErrShortWrite | ErrClosedPipe | ErrOther string

datatype outcome = Accept | Fail nat error

record Sink =
  out :: string
  script :: "outcome list"

definition Sink_Write :: "Sink \<Rightarrow> string \<Rightarrow> int \<times> error option \<times> Sink" where
  "Sink_Write k b =
     (case script k of
        [] \<Rightarrow> (int (length b), None, k\<lparr>out := out k @ b\<rparr>)
      | Accept # rest \<Rightarrow> (int (length b), None, k\<lparr>out := out k @ b, script := rest\<rparr>)
      | Fail n e # rest \<Rightarrow>
          (int (min n (length b)), Some e,
           k\<lparr>out := out k @ take (min n (length b)) b, script := rest\<rparr>))"

subsection \<open>Values\<close>

text \<open>
  \<^verbatim>\<open>float64\<close> is the IEEE 754 binary64 bit pattern. The writer only compares
  floats (as map keys) and prints them; printing is library code and is a
  parameter below. Go's \<^verbatim>\<open>==\<close> on floats: a NaN equals nothing, itself included,
  and the two zeros are equal.
\<close>

type_synonym float64 = "64 word"

definition f64_isNaN :: "float64 \<Rightarrow> bool" where
  "f64_isNaN x \<longleftrightarrow>
     (drop_bit 52 x AND 0x7FF = 0x7FF \<and> x AND 0xFFFFFFFFFFFFF \<noteq> 0)"

definition f64_isZero :: "float64 \<Rightarrow> bool" where
  "f64_isZero x \<longleftrightarrow> x AND 0x7FFFFFFFFFFFFFFF = 0"

definition f64_eq :: "float64 \<Rightarrow> float64 \<Rightarrow> bool" where
  "f64_eq x y \<longleftrightarrow>
     \<not> f64_isNaN x \<and> \<not> f64_isNaN y \<and> (x = y \<or> (f64_isZero x \<and> f64_isZero y))"

type_synonym PDFName = string
type_synonym PDFFilter = string

text \<open>
  The argument of \<^verbatim>\<open>writeVal\<close> is an \<^verbatim>\<open>interface{}\<close>: one constructor per case of
  its type switch, and three constructors (\<open>VBool\<close>, \<open>VInt64\<close>, \<open>VNil\<close>) for
  values of other dynamic types. A \<^verbatim>\<open>PDFDict\<close> is a Go map: the association list
  holds its entries (keys distinct), and says nothing about iteration order.
  The \<^verbatim>\<open>dict\<close> field of a \<^verbatim>\<open>PDFStream\<close> may be the nil map, \<open>None\<close>.
  Values are trees: a map object shared between two places of one value is
  outside the model.
\<close>

datatype val =
    VInt int
  | VFloat float64
  | VString string
  | VRef int
  | VName PDFName
  | VArray "val list"
  | VDict "(PDFName \<times> val) list"
  | VStream "(PDFName \<times> val) list option" "PDFFilter list" string
  | VBool bool
  | VInt64 int
  | VNil

type_synonym PDFDict = "(PDFName \<times> val) list"

definition PDFFilterASCII85 :: PDFFilter where
  "PDFFilterASCII85 = ''ASCII85Decode''"

definition PDFFilterFlate :: PDFFilter where
  "PDFFilterFlate = ''FlateDecode''"

text \<open>
  Map read \<^verbatim>\<open>d[k]\<close> (with the ok flag) and map assignment \<^verbatim>\<open>d[k] = v\<close>, for
  maps whose keys are compared by identity (names, addresses).
\<close>

fun dict_get :: "('k \<times> 'v) list \<Rightarrow> 'k \<Rightarrow> 'v option" where
  "dict_get [] k = None"
| "dict_get ((k', v) # d) k = (if k' = k then Some v else dict_get d k)"

fun dict_set :: "'k \<Rightarrow> 'v \<Rightarrow> ('k \<times> 'v) list \<Rightarrow> ('k \<times> 'v) list" where
  "dict_set k v [] = [(k, v)]"
| "dict_set k v ((k', v') # d) = (if k' = k then (k, v) # d else (k', v') # dict_set k v d)"

subsection \<open>Library code taken as parameters\<close>

text \<open>
  Three functions of Go's standard library are not part of the repository and
  are parameters of the model: the shortest decimal form \<^verbatim>\<open>%v\<close> prints for a
  \<^verbatim>\<open>float64\<close>, the ASCII85 encoder and the zlib compressor (each as the function
  from the bytes written to the bytes that reach the buffer after \<^verbatim>\<open>Close\<close>).
\<close>

record Lib =
  fmtFloat64 :: "float64 \<Rightarrow> string"
  ascii85Encode :: "string \<Rightarrow> string"
  zlibCompress :: "string \<Rightarrow> string"

subsection \<open>Formatting integers\<close>

definition digit_char :: "nat \<Rightarrow> char" where
  "digit_char d = ''0123456789'' ! d"

function digits :: "nat \<Rightarrow> string" where
  "digits n = (if n < 10 then [digit_char n] else digits (n div 10) @ [digit_char (n mod 10)])"
  by pat_completeness auto
termination
  by (relation "measure id") auto

declare digits.simps [simp del]

text \<open>\<^verbatim>\<open>%v\<close> and \<^verbatim>\<open>%d\<close> on an integer.\<close>

definition fmt_d :: "int \<Rightarrow> string" where
  "fmt_d i = (if i < 0 then CHR ''-'' # digits (nat (- i)) else digits (nat i))"

text \<open>
  \<^verbatim>\<open>%010d\<close>: the sign, then zeros up to a total width of ten, then the digits;
  a number too long for the width is printed in full.
\<close>

definition fmt_010d :: "int \<Rightarrow> string" where
  "fmt_010d i =
     (if i < 0
      then CHR ''-'' # replicate (9 - length (digits (nat (- i)))) CHR ''0'' @ digits (nat (- i))
      else replicate (10 - length (digits (nat i))) CHR ''0'' @ digits (nat i))"

text \<open>\<^verbatim>\<open>strings.Replace(v, old, new, -1)\<close> for a one-byte \<^verbatim>\<open>old\<close>.\<close>

definition Replace1 :: "string \<Rightarrow> char \<Rightarrow> string \<Rightarrow> string" where
  "Replace1 v old new = concat (map (\<lambda>c. if c = old then new else [c]) v)"

subsection \<open>The writer state\<close>

text \<open>
  The fields of \<^verbatim>\<open>PDFWriter\<close>, in the order of the struct. \<^verbatim>\<open>graphicsStates\<close> and
  \<^verbatim>\<open>fonts\<close> are Go maps whose length is read, so they are association lists;
  a font key is the address a \<^verbatim>\<open>*Font\<close> holds.

  \<open>mapiter\<close> is not a field of the struct. Go leaves the order in which
  \<^verbatim>\<open>range\<close> visits a map unspecified, and the runtime picks a new one for every
  loop; \<open>mapiter\<close> is the sequence of these picks, one number per \<^verbatim>\<open>range\<close> loop
  still to come.
\<close>

record PDFWriter =
  w :: Sink
  err :: "error option"
  width :: float64
  height :: float64
  pos :: int
  objOffsets :: "int list"
  resources :: PDFDict
  graphicsStates :: "(float64 \<times> PDFName) list"
  fonts :: "(nat \<times> PDFName) list"
  mapiter :: "nat list"

definition writeBytes :: "string \<Rightarrow> PDFWriter \<Rightarrow> PDFWriter" where
  "writeBytes b s =
     (if err s \<noteq> None then s
      else (case Sink_Write (w s) b of
              (n, e, k) \<Rightarrow> s\<lparr>w := k, pos := pos s + n, err := e\<rparr>))"

text \<open>
  \<^verbatim>\<open>write(s, v...)\<close>: \<^verbatim>\<open>fmt.Fprintf\<close> expands the format into a buffer and hands
  the buffer to the sink in one \<^verbatim>\<open>Write\<close>. The callers below pass the expanded
  text.
\<close>

definition "write" :: "string \<Rightarrow> PDFWriter \<Rightarrow> PDFWriter" where
  "write b s =
     (if err s \<noteq> None then s
      else (case Sink_Write (w s) b of
              (n, e, k) \<Rightarrow> s\<lparr>w := k, pos := pos s + n, err := e\<rparr>))"

subsection \<open>Iterating a map\<close>

text \<open>
  \<open>pick_order r xs\<close> is the order in which a \<^verbatim>\<open>range\<close> loop with pick \<open>r\<close> visits
  the entries \<open>xs\<close>: \<open>r\<close> is read in the factorial number system, so every
  order of the entries is the order of some pick.
\<close>

function pick_order :: "nat \<Rightarrow> 'a list \<Rightarrow> 'a list" where
  "pick_order r xs =
     (if xs = [] then []
      else xs ! (r mod length xs) #
           pick_order (r div length xs) (take (r mod length xs) xs @ drop (Suc (r mod length xs)) xs))"
  by pat_completeness auto
termination
proof (relation "measure (\<lambda>(r, xs). length xs)")
  fix r :: nat and xs :: "'a list"
  assume "xs \<noteq> []"
  then have "r mod length xs < length xs"
    by simp
  then show "((r div length xs, take (r mod length xs) xs @ drop (Suc (r mod length xs)) xs), (r, xs))
      \<in> measure (\<lambda>(r, xs). length xs)"
    by simp
qed simp

declare pick_order.simps [simp del]

definition range_order :: "PDFWriter \<Rightarrow> 'a list \<Rightarrow> 'a list" where
  "range_order s xs = (case mapiter s of [] \<Rightarrow> xs | r # rs \<Rightarrow> pick_order r xs)"

definition range_next :: "PDFWriter \<Rightarrow> PDFWriter" where
  "range_next s = s\<lparr>mapiter := tl (mapiter s)\<rparr>"

subsection \<open>The value serializer\<close>

text \<open>
  The first loop of the \<^verbatim>\<open>PDFStream\<close> case walks the filter list from its last
  index down to 0 and appends each filter as a name; \<open>collect_filters fs j acc\<close>
  is the loop with \<open>j\<close> indices still to visit.
\<close>

fun collect_filters :: "PDFFilter list \<Rightarrow> nat \<Rightarrow> val list \<Rightarrow> val list" where
  "collect_filters fs 0 acc = acc"
| "collect_filters fs (Suc j) acc = collect_filters fs j (acc @ [VName (fs ! j)])"

text \<open>
  One round of the second loop: the filter writes into a fresh buffer \<^verbatim>\<open>b2\<close>,
  and a filter that is neither of the two constants leaves the buffer empty.
\<close>

definition apply_filter :: "Lib \<Rightarrow> PDFFilter \<Rightarrow> string \<Rightarrow> string" where
  "apply_filter L flt b =
     (if flt = PDFFilterASCII85 then ascii85Encode L b
      else if flt = PDFFilterFlate then zlibCompress L b
      else [])"

text \<open>The dictionary of a stream after the \<^verbatim>\<open>Filter\<close> and \<^verbatim>\<open>Length\<close> assignments.\<close>

definition stream_dict :: "PDFDict option \<Rightarrow> val list \<Rightarrow> string \<Rightarrow> PDFDict" where
  "stream_dict dict filters b =
     (let dict0 = (case dict of None \<Rightarrow> [] | Some d \<Rightarrow> d);
          dict1 = (if length filters = 1 then dict_set ''Filter'' (filters ! 0) dict0
                   else if length filters > 1 then dict_set ''Filter'' (VArray filters) dict0
                   else dict0)
      in dict_set ''Length'' (VInt (int (length b))) dict1)"

text \<open>The measure that decreases along the recursion of \<^verbatim>\<open>writeVal\<close>.\<close>

fun weight :: "val \<Rightarrow> nat" where
  "weight (VArray vs) = Suc (sum_list (map weight vs))"
| "weight (VDict d) = Suc (sum_list (map (\<lambda>kv. Suc (weight (snd kv))) d))"
| "weight (VStream dict fs b) =
     6 + length fs +
     (case dict of None \<Rightarrow> 0 | Some d \<Rightarrow> sum_list (map (\<lambda>kv. Suc (weight (snd kv))) d))"
| "weight _ = 1"

function (sequential) writeVal :: "Lib \<Rightarrow> val \<Rightarrow> PDFWriter \<Rightarrow> PDFWriter" where
  "writeVal L (VInt v) s = write (fmt_d v) s"
| "writeVal L (VFloat v) s = write (fmtFloat64 L v) s"
| "writeVal L (VString v) s =
     write (''('' @
            Replace1 (Replace1 (Replace1 v BSL [BSL, BSL]) CHR ''('' [BSL, CHR ''(''])
              CHR '')'' [BSL, CHR '')''] @
            '')'') s"
| "writeVal L (VRef v) s = write (fmt_d v @ '' 0 R'') s"
| "writeVal L (VName v) s = write (''/'' @ v) s"
| "writeVal L (VArray v) s =
     write '']''
       (fold (\<lambda>jval s'. writeVal L (snd jval) (if fst jval \<noteq> 0 then write '' '' s' else s'))
          (enumerate 0 v) (write ''['' s))"
| "writeVal L (VDict v) s =
     write ''>>''
       (fold (\<lambda>kv s'. write '' '' (writeVal L (snd kv) (write '' '' (writeVal L (VName (fst kv)) s'))))
          (range_order (write ''<< '' s) v) (range_next (write ''<< '' s)))"
| "writeVal L (VStream dict filters b) s =
     (let fnames = collect_filters filters (length filters) [];
          b' = fold (apply_filter L) filters b
      in write (NL @ ''endstream'')
           (writeBytes b'
              (write (NL @ ''stream'' @ NL)
                 (writeVal L (VDict (stream_dict dict fnames b')) s))))"
| "writeVal L _ s = s"
  by pat_completeness auto

subsection \<open>Objects\<close>

type_synonym PDFRef = int

definition WriteObject :: "Lib \<Rightarrow> val \<Rightarrow> PDFWriter \<Rightarrow> PDFRef \<times> PDFWriter" where
  "WriteObject L v s =
     (let s1 = s\<lparr>objOffsets := objOffsets s @ [pos s]\<rparr>;
          s2 = write (fmt_d (int (length (objOffsets s1))) @ '' 0 obj'' @ NL) s1;
          s3 = writeVal L v s2;
          s4 = write (NL @ ''endobj'' @ NL) s3
      in (int (length (objOffsets s4)), s4))"

subsection \<open>Resources\<close>

text \<open>
  A panic unwinds the call and leaves the writer as it was when the panic was
  raised, so the lookups return the writer together with either the name or
  the panic. \<open>PanicTypeAssertion\<close> is the run-time panic of a failed
  \<^verbatim>\<open>.(PDFDict)\<close> assertion.
\<close>

datatype panic = Panic string | PanicTypeAssertion

text \<open>
  A \<^verbatim>\<open>map[float64]PDFName\<close>: keys are compared with \<^verbatim>\<open>==\<close>, so a NaN key is never
  found and every assignment under a NaN adds an entry.
\<close>

fun f64map_get :: "(float64 \<times> 'v) list \<Rightarrow> float64 \<Rightarrow> 'v option" where
  "f64map_get [] a = None"
| "f64map_get ((a', v) # m) a = (if f64_eq a' a then Some v else f64map_get m a)"

fun f64map_set :: "float64 \<Rightarrow> 'v \<Rightarrow> (float64 \<times> 'v) list \<Rightarrow> (float64 \<times> 'v) list" where
  "f64map_set a v [] = [(a, v)]"
| "f64map_set a v ((a', v') # m) =
     (if f64_eq a' a then (a, v) # m else (a', v') # f64map_set a v m)"

definition GetOpacityGS :: "float64 \<Rightarrow> PDFWriter \<Rightarrow> (panic + PDFName) \<times> PDFWriter" where
  "GetOpacityGS a s =
     (case f64map_get (graphicsStates s) a of
        Some nm \<Rightarrow> (Inr nm, s)
      | None \<Rightarrow>
          (let nm = ''GS'' @ fmt_d (int (length (graphicsStates s)));
               s1 = s\<lparr>graphicsStates := f64map_set a nm (graphicsStates s)\<rparr>
           in case dict_get (resources s1) ''ExtGState'' of
                Some (VDict e) \<Rightarrow>
                  (Inr nm,
                   s1\<lparr>resources :=
                        dict_set ''ExtGState'' (VDict (dict_set nm (VDict [(''ca'', VFloat a)]) e))
                          (resources s1)\<rparr>)
              | _ \<Rightarrow> (Inl PanicTypeAssertion, s1)))"

text \<open>
  Modelled from the spec: the type \<^verbatim>\<open>Font\<close> and its method \<^verbatim>\<open>Raw\<close> are declared in
  a file that is not under src/. The spec gives the font a display name, a
  format tag and a byte blob, \<^verbatim>\<open>Raw\<close> returning the tag and the blob. A
  \<^verbatim>\<open>*Font\<close> is a non-nil pointer: the address it holds and the font found there.
\<close>

record Font =
  name :: string
  mimetype :: string
  raw :: string

definition Raw :: "Font \<Rightarrow> string \<times> string" where
  "Raw f = (mimetype f, raw f)"

record FontPtr =
  addr :: nat
  deref :: Font

definition GetFont :: "Lib \<Rightarrow> FontPtr \<Rightarrow> PDFWriter \<Rightarrow> (panic + PDFName) \<times> PDFWriter" where
  "GetFont L f s =
     (case dict_get (fonts s) (addr f) of
        Some nm \<Rightarrow> (Inr nm, s)
      | None \<Rightarrow>
          (if fst (Raw (deref f)) \<noteq> ''font/ttf''
           then (Inl (Panic ''only TTF format support for embedding fonts in PDFs''), s)
           else
             (let baseFont = Replace1 (name (deref f)) CHR '' '' ''_'';
                  (ref, s1) = WriteObject L
                     (VStream (Some [(''Type'', VName ''Font''),
                                     (''Subtype'', VName ''TrueType''),
                                     (''BaseFont'', VName baseFont)]) [] []) s;
                  nm = ''F'' @ fmt_d (int (length (fonts s1)));
                  s2 = s1\<lparr>fonts := dict_set (addr f) nm (fonts s1)\<rparr>
              in case dict_get (resources s2) ''Font'' of
                   Some (VDict fd) \<Rightarrow>
                     (Inr nm,
                      s2\<lparr>resources :=
                           dict_set ''Font'' (VDict (dict_set nm (VRef ref) fd)) (resources s2)\<rparr>)
                 | _ \<Rightarrow> (Inl PanicTypeAssertion, s2))))"

subsection \<open>Opening and closing\<close>

text \<open>\<open>iter\<close> is the sequence of iteration picks the run will see.\<close>

definition NewPDFWriter :: "nat list \<Rightarrow> Sink \<Rightarrow> float64 \<Rightarrow> float64 \<Rightarrow> PDFWriter" where
  "NewPDFWriter iter writer wd ht =
     write (''%PDF-1.7'' @ NL)
       \<lparr>w = writer, err = None, width = wd, height = ht, pos = 0, objOffsets = [],
        resources = [(''ExtGState'', VDict []), (''Font'', VDict [])],
        graphicsStates = [], fonts = [], mapiter = iter\<rparr>"

definition Close_contents :: "PDFWriter \<Rightarrow> val list" where
  "Close_contents s = map (\<lambda>j. VRef (int j + 1)) [0..<length (objOffsets s)]"

definition Close_page :: "PDFWriter \<Rightarrow> val" where
  "Close_page s =
     VDict [(''Type'', VName ''Page''),
            (''Parent'', VRef (int (length (objOffsets s)) + 2)),
            (''MediaBox'', VArray [VFloat 0, VFloat 0, VFloat (width s), VFloat (height s)]),
            (''Resources'', VDict (resources s)),
            (''Contents'', VArray (Close_contents s))]"

definition Close_pages :: "PDFRef \<Rightarrow> val" where
  "Close_pages refPage =
     VDict [(''Type'', VName ''Pages''), (''Kids'', VArray [VRef refPage]), (''Count'', VInt 1)]"

definition Close_catalog :: "PDFRef \<Rightarrow> val" where
  "Close_catalog refPages = VDict [(''Type'', VName ''Catalog''), (''Pages'', VRef refPages)]"

definition Close_trailer :: "PDFRef \<Rightarrow> PDFWriter \<Rightarrow> val" where
  "Close_trailer refCatalog s =
     VDict [(''Root'', VRef refCatalog), (''Size'', VInt (int (length (objOffsets s))))]"

definition xref_entry :: "int \<Rightarrow> string" where
  "xref_entry objOffset = fmt_010d objOffset @ '' 00000 n'' @ NL"

definition Close_xref :: "Lib \<Rightarrow> PDFRef \<Rightarrow> PDFWriter \<Rightarrow> PDFWriter" where
  "Close_xref L refCatalog s =
     (let xrefOffset = pos s;
          s1 = write (''xref'' @ NL @ ''0 '' @ fmt_d (int (length (objOffsets s)) + 1) @ NL @
                      ''0000000000 65535 f'' @ NL) s;
          s2 = fold (\<lambda>objOffset. write (xref_entry objOffset)) (objOffsets s1) s1;
          s3 = write (''trailer'' @ NL) s2;
          s4 = writeVal L (Close_trailer refCatalog s3) s3
      in write (NL @ ''starxref'' @ NL @ fmt_d xrefOffset @ NL @ ''%%EOF'') s4)"

definition Close :: "Lib \<Rightarrow> PDFWriter \<Rightarrow> error option \<times> PDFWriter" where
  "Close L s =
     (let (refPage, s1) = WriteObject L (Close_page s) s;
          (refPages, s2) = WriteObject L (Close_pages refPage) s1;
          (refCatalog, s3) = WriteObject L (Close_catalog refPages) s2;
          s4 = Close_xref L refCatalog s3
      in (err s4, s4))"

subsection \<open>Runs of the public operations\<close>

text \<open>
  A caller holds a writer made by \<^verbatim>\<open>NewPDFWriter\<close> and calls the exported methods
  on it in any order. A caller that recovers from a panic goes on with the
  writer as the panic left it.
\<close>

datatype op = OpWriteObject val | OpGetOpacityGS float64 | OpGetFont FontPtr | OpClose

fun step :: "Lib \<Rightarrow> op \<Rightarrow> PDFWriter \<Rightarrow> PDFWriter" where
  "step L (OpWriteObject v) s = snd (WriteObject L v s)"
| "step L (OpGetOpacityGS a) s = snd (GetOpacityGS a s)"
| "step L (OpGetFont f) s = snd (GetFont L f s)"
| "step L OpClose s = snd (Close L s)"

definition run :: "Lib \<Rightarrow> op list \<Rightarrow> PDFWriter \<Rightarrow> PDFWriter" where
  "run L ops s = fold (step L) ops s"

definition obj_header :: "nat \<Rightarrow> string" where
  "obj_header n = fmt_d (int n) @ '' 0 obj'' @ NL"

definition header_at :: "PDFWriter \<Rightarrow> nat \<Rightarrow> bool" where
  "header_at s i =
     (let off = objOffsets s ! i; rest = drop (nat off) (out (w s))
      in 0 \<le> off \<and> off \<le> int (length (out (w s))) \<and>
         (if err s = None then prefix (obj_header (Suc i)) rest
          else prefix (obj_header (Suc i)) rest \<or> prefix rest (obj_header (Suc i))))"

definition offsets_inv :: "PDFWriter \<Rightarrow> bool" where
  "offsets_inv s \<longleftrightarrow>
     pos s = int (length (out (w s))) \<and> (\<forall>i<length (objOffsets s). header_at s i)"

definition sink_view :: "PDFWriter \<Rightarrow> Sink \<times> error option \<times> int \<times> int list" where
  "sink_view s = (w s, err s, pos s, objOffsets s)"

definition font_object :: "FontPtr \<Rightarrow> val" where
  "font_object f =
     VStream (Some [(''Type'', VName ''Font''), (''Subtype'', VName ''TrueType''),
                    (''BaseFont'', VName (Replace1 (name (deref f)) CHR '' '' ''_''))]) [] []"

subsection \<open>A stand-in library for worked examples\<close>

text \<open>
  The worked examples need some library: this one prints every float as
  \<open>0\<close>, brackets ASCII85 output as the real encoder does and marks
  compressed data with a leading \<open>Z\<close>.
\<close>

definition example_Lib :: Lib where
  "example_Lib =
     \<lparr>fmtFloat64 = (\<lambda>x. ''0''),
      ascii85Encode = (\<lambda>b. ''<~'' @ b @ ''~>''),
      zlibCompress = (\<lambda>b. ''Z'' @ b)\<rparr>"

definition empty_sink :: "outcome list \<Rightarrow> Sink" where
  "empty_sink sc = \<lparr>out = [], script = sc\<rparr>"

text \<open>What the sink and the error flag hold: the part of the writer a failed write freezes.\<close>

definition io_state :: "PDFWriter \<Rightarrow> Sink \<times> int \<times> error option" where
  "io_state s = (w s, pos s, err s)"

text \<open>A sink whose script holds no failure accepts every write.\<close>

definition never_fails :: "Sink \<Rightarrow> bool" where
  "never_fails k = list_all (\<lambda>x. x = Accept) (script k)"

text \<open>A writer with no error so far on a sink that never fails.\<close>

definition healthy :: "PDFWriter \<Rightarrow> bool" where
  "healthy s \<longleftrightarrow> err s = None \<and> never_fails (w s)"

text \<open>The dynamic types that no case of the type switch of \<^verbatim>\<open>writeVal\<close> matches.\<close>

fun unsupported :: "val \<Rightarrow> bool" where
  "unsupported (VBool b) = True"
| "unsupported (VInt64 n) = True"
| "unsupported VNil = True"
| "unsupported v = False"

subsection \<open>Worked inputs\<close>

text \<open>
  A writer whose sink accepts the file header and then fails on the next write
  after taking three bytes: the header line of the first object is cut short
  and the error flag is set.
\<close>

definition failed_writer :: PDFWriter where
  "failed_writer =
     snd (WriteObject example_Lib (VInt 7)
            (NewPDFWriter [] (empty_sink [Accept, Fail 3 ErrClosedPipe]) 100 200))"

text \<open>The bit pattern of the \<^verbatim>\<open>float64\<close> 0.5.\<close>

definition f64_half :: float64 where
  "f64_half = 0x3FE0000000000000"

subsection \<open>The stream rules in the words of the specification\<close>

text \<open>
  The filter pipeline: each filter of the list in turn, the output of one stage
  being the input of the next.
\<close>

fun pipeline :: "Lib \<Rightarrow> PDFFilter list \<Rightarrow> string \<Rightarrow> string" where
  "pipeline L [] b = b"
| "pipeline L (f # fs) b = pipeline L fs (apply_filter L f b)"

text \<open>
  The \<^verbatim>\<open>Filter\<close> entry: none for no filter, the name for one filter, the array of
  the names in reverse order for more.
\<close>

fun Filter_entry :: "PDFFilter list \<Rightarrow> val option" where
  "Filter_entry [] = None"
| "Filter_entry [f] = Some (VName f)"
| "Filter_entry fs = Some (VArray (map VName (rev fs)))"

definition with_Filter :: "PDFFilter list \<Rightarrow> PDFDict \<Rightarrow> PDFDict" where
  "with_Filter fs d = (case Filter_entry fs of None \<Rightarrow> d | Some v \<Rightarrow> dict_set ''Filter'' v d)"

definition with_Length :: "string \<Rightarrow> PDFDict \<Rightarrow> PDFDict" where
  "with_Length b d = dict_set ''Length'' (VInt (int (length b))) d"

text \<open>
  Two pointers to fonts with the same name, format and bytes at the addresses
  given, and a pointer to a font of another format.
\<close>

definition ttf_font_at :: "nat \<Rightarrow> FontPtr" where
  "ttf_font_at a =
     \<lparr>addr = a, deref = \<lparr>name = ''Deja Vu'', mimetype = ''font/ttf'', raw = ''glyphs''\<rparr>\<rparr>"

definition otf_font :: FontPtr where
  "otf_font = \<lparr>addr = 7, deref = \<lparr>name = ''Garamond'', mimetype = ''font/otf'', raw = ''glyphs''\<rparr>\<rparr>"

definition new_writer :: PDFWriter where
  "new_writer = NewPDFWriter [] (empty_sink []) 100 200"

subsection \<open>The opacity entries of the resource dictionary\<close>

text \<open>A quiet NaN.\<close>

definition f64_NaN :: float64 where
  "f64_NaN = 0x7FF8000000000000"

text \<open>The level of an entry \<^verbatim>\<open>{"ca": a}\<close>.\<close>

fun ca_level :: "val \<Rightarrow> float64 option" where
  "ca_level (VDict [(k, VFloat a)]) = (if k = ''ca'' then Some a else None)"
| "ca_level v = None"

text \<open>
  The entries of the \<^verbatim>\<open>ExtGState\<close> sub-dictionary whose level equals \<open>a\<close> (by
  Go's \<^verbatim>\<open>==\<close>).
\<close>

definition opacity_entries :: "float64 \<Rightarrow> PDFWriter \<Rightarrow> (PDFName \<times> val) list" where
  "opacity_entries a s =
     (case dict_get (resources s) ''ExtGState'' of
        Some (VDict e) \<Rightarrow>
          filter (\<lambda>kv. case ca_level (snd kv) of Some a' \<Rightarrow> f64_eq a' a | None \<Rightarrow> False) e
      | _ \<Rightarrow> [])"

text \<open>
  The invariant that ties the opacity cache to the sub-dictionary: the
  sub-dictionary holds one entry per cache entry, in the same order, the names
  are \<^verbatim>\<open>GS0\<close>, \<^verbatim>\<open>GS1\<close>, ... and no two cached levels are equal.
\<close>

definition gs_name :: "nat \<Rightarrow> PDFName" where
  "gs_name i = ''GS'' @ fmt_d (int i)"

fun f64_distinct :: "float64 list \<Rightarrow> bool" where
  "f64_distinct [] = True"
| "f64_distinct (x # xs) = ((\<forall>y\<in>set xs. \<not> f64_eq x y) \<and> f64_distinct xs)"

definition gs_entry :: "float64 \<times> PDFName \<Rightarrow> PDFName \<times> val" where
  "gs_entry p = (snd p, VDict [(''ca'', VFloat (fst p))])"

definition gs_inv :: "PDFWriter \<Rightarrow> bool" where
  "gs_inv s \<longleftrightarrow>
     dict_get (resources s) ''ExtGState'' = Some (VDict (map gs_entry (graphicsStates s))) \<and>
     map snd (graphicsStates s) = map gs_name [0..<length (graphicsStates s)] \<and>
     f64_distinct (map fst (graphicsStates s))"

text \<open>The number a digit string denotes.\<close>

definition digit_val :: "char \<Rightarrow> nat" where
  "digit_val c = of_char c - 48"

definition digits_val :: "string \<Rightarrow> nat" where
  "digits_val ds = foldl (\<lambda>acc c. 10 * acc + digit_val c) 0 ds"

text \<open>A dictionary with two entries, and a writer whose first two map iterations pick 0 and 1.\<close>

definition two_entries :: PDFDict where
  "two_entries = [(''A'', VInt 1), (''B'', VInt 2)]"

definition two_picks_writer :: PDFWriter where
  "two_picks_writer = NewPDFWriter [0, 1] (empty_sink []) 100 200"

text \<open>The body of the loop over a dictionary: key, space, value, space.\<close>

definition write_entry :: "Lib \<Rightarrow> PDFName \<times> val \<Rightarrow> PDFWriter \<Rightarrow> PDFWriter" where
  "write_entry L kv s = write '' '' (writeVal L (snd kv) (write '' '' (writeVal L (VName (fst kv)) s)))"

subsection \<open>The tail of the file in the words of the specification\<close>

text \<open>
  The cross-reference section for an offset table: the keyword, the line with
  the first object number 0 and the number of entries (one more than the table
  has offsets), the free-list entry for object 0, then one entry per offset in
  the order of the table.
\<close>

definition xref_section :: "int list \<Rightarrow> string" where
  "xref_section offs =
     ''xref'' @ NL @ ''0 '' @ fmt_d (int (length offs) + 1) @ NL @
     ''0000000000 65535 f'' @ NL @ concat (map xref_entry offs)"

text \<open>The entries of a dictionary value.\<close>

fun entries :: "val \<Rightarrow> PDFDict" where
  "entries (VDict d) = d"
| "entries v = []"



subsection \<open>The serialized form of a value\<close>

text \<open>
  The bytes of a value as the specification gives them, with no writer and no
  sink: a pure function of the value and of the picks that the map iterations
  of the rendering will see. The result holds the bytes and the picks left
  over. Numbers print as their numeral, a string is escaped and put between
  parentheses, a name follows a slash, a reference is \<^verbatim>\<open>n 0 R\<close>, an array puts
  its elements between brackets with one space between them, a dictionary
  puts each key and value, each followed by one space, between \<^verbatim>\<open><<\<close> and
  \<^verbatim>\<open>>>\<close> in the order of the map iteration, and a stream is its dictionary
  with \<^verbatim>\<open>Filter\<close> and \<^verbatim>\<open>Length\<close>, then the encoded payload between the \<^verbatim>\<open>stream\<close>
  and \<^verbatim>\<open>endstream\<close> lines. A value of any other kind has no bytes.
\<close>

definition map_order :: "nat list \<Rightarrow> 'a list \<Rightarrow> 'a list" where
  "map_order m xs = (case m of [] \<Rightarrow> xs | r # rs \<Rightarrow> pick_order r xs)"

function (sequential) render :: "Lib \<Rightarrow> val \<Rightarrow> nat list \<Rightarrow> string \<times> nat list" where
  "render L (VInt v) m = (fmt_d v, m)"
| "render L (VFloat v) m = (fmtFloat64 L v, m)"
| "render L (VString v) m =
     (''('' @
      Replace1 (Replace1 (Replace1 v BSL [BSL, BSL]) CHR ''('' [BSL, CHR ''(''])
        CHR '')'' [BSL, CHR '')''] @
      '')'', m)"
| "render L (VRef v) m = (fmt_d v @ '' 0 R'', m)"
| "render L (VName v) m = (''/'' @ v, m)"
| "render L (VArray vs) m =
     (let r = fold (\<lambda>jv acc.
                (fst acc @ (if fst jv \<noteq> 0 then '' '' else []) @ fst (render L (snd jv) (snd acc)),
                 snd (render L (snd jv) (snd acc))))
              (enumerate 0 vs) (''['', m)
      in (fst r @ '']'', snd r))"
| "render L (VDict d) m =
     (let r = fold (\<lambda>kv acc.
                (fst acc @ ''/'' @ fst kv @ '' '' @ fst (render L (snd kv) (snd acc)) @ '' '',
                 snd (render L (snd kv) (snd acc))))
              (map_order m d) (''<< '', tl m)
      in (fst r @ ''>>'', snd r))"
| "render L (VStream dict fs b) m =
     (let r = render L
                (VDict (with_Length (pipeline L fs b)
                          (with_Filter fs (case dict of None \<Rightarrow> [] | Some d \<Rightarrow> d)))) m
      in (fst r @ NL @ ''stream'' @ NL @ pipeline L fs b @ NL @ ''endstream'', snd r))"
| "render L v m = ([], m)"
  by pat_completeness auto

section \<open>Termination of the serializer\<close>

lemma mset_pick_order: "mset (pick_order r xs) = mset xs"
proof (induction r xs rule: pick_order.induct)
  case (1 r xs)
  show ?case
  proof (cases "xs = []")
    case True
    then show ?thesis by (simp add: pick_order.simps)
  next
    case False
    let ?i = "r mod length xs"
    from False have i: "?i < length xs" by simp
    have "mset (pick_order r xs) = add_mset (xs ! ?i) (mset (take ?i xs @ drop (Suc ?i) xs))"
      using False "1.IH" by (subst pick_order.simps) simp
    also have "\<dots> = mset (take ?i xs @ xs ! ?i # drop (Suc ?i) xs)"
      by simp
    also have "\<dots> = mset xs"
      using id_take_nth_drop [OF i] by simp
    finally show ?thesis .
  qed
qed

lemma set_pick_order: "set (pick_order r xs) = set xs"
  using mset_pick_order [of r xs] by (metis set_mset_mset)

lemma mset_range_order: "mset (range_order s xs) = mset xs"
  by (simp add: range_order_def mset_pick_order split: list.splits)

lemma set_range_order: "set (range_order s xs) = set xs"
  by (simp add: range_order_def set_pick_order split: list.splits)

lemma weight_array_elem: "v \<in> set vs \<Longrightarrow> weight v < Suc (sum_list (map weight vs))"
  by (induction vs) auto

lemma weight_dict_elem:
  "(k, v) \<in> set d \<Longrightarrow> weight v < (\<Sum>kv\<leftarrow>d. Suc (weight (snd kv)))"
  by (induction d) auto

lemma weight_dict_set:
  "(\<Sum>kv\<leftarrow>dict_set k v d. Suc (weight (snd kv)))
     \<le> (\<Sum>kv\<leftarrow>d. Suc (weight (snd kv))) + Suc (weight v)"
  by (induction d) auto

lemma length_collect_filters: "length (collect_filters fs n acc) = length acc + n"
  by (induction n arbitrary: acc) auto

lemma weight_collect_filters:
  "sum_list (map weight (collect_filters fs n acc)) = sum_list (map weight acc) + n"
  by (induction n arbitrary: acc) auto

lemma weight_stream_dict:
  "(\<Sum>kv\<leftarrow>stream_dict dict (collect_filters fs (length fs) []) b. Suc (weight (snd kv)))
     < 5 + (length fs + (case dict of None \<Rightarrow> 0 | Some d \<Rightarrow> \<Sum>kv\<leftarrow>d. Suc (weight (snd kv))))"
proof -
  let ?fn = "collect_filters fs (length fs) []"
  let ?W = "\<lambda>d. (\<Sum>kv\<leftarrow>d. Suc (weight (snd kv)))"
  let ?d0 = "(case dict of None \<Rightarrow> [] | Some d \<Rightarrow> d)"
  let ?d1 = "(if length ?fn = 1 then dict_set ''Filter'' (?fn ! 0) ?d0
              else if length ?fn > 1 then dict_set ''Filter'' (VArray ?fn) ?d0 else ?d0)"
  have len: "length ?fn = length fs" by (simp add: length_collect_filters)
  have one: "length fs = 1 \<Longrightarrow> weight (?fn ! 0) = 1"
  proof -
    assume "length fs = 1"
    then obtain f where "fs = [f]" by (cases fs) auto
    then show ?thesis by simp
  qed
  have arr: "weight (VArray ?fn) = Suc (length fs)"
    by (simp add: weight_collect_filters)
  have d1: "?W ?d1 \<le> ?W ?d0 + Suc (Suc (length fs))"
  proof (cases "length fs = 1")
    case True
    then show ?thesis
      using weight_dict_set [of "''Filter''" "?fn ! 0" ?d0] one by (simp add: len)
  next
    case False
    then show ?thesis
      using weight_dict_set [of "''Filter''" "VArray ?fn" ?d0] arr
      by (simp add: len del: weight.simps)
  qed
  have "?W (stream_dict dict ?fn b) \<le> ?W ?d1 + 2"
    unfolding stream_dict_def Let_def
    using weight_dict_set [of "''Length''" "VInt (int (length b))" ?d1] by simp
  moreover have "?W ?d0 = (case dict of None \<Rightarrow> 0 | Some d \<Rightarrow> ?W d)"
    by (cases dict) auto
  ultimately show ?thesis using d1 by linarith
qed

lemma weight_enumerate_elem:
  "(j, v) \<in> set (enumerate n vs) \<Longrightarrow> weight v < Suc (sum_list (map weight vs))"
  by (auto simp: in_set_enumerate_eq intro: weight_array_elem)

lemma weight_range_elem:
  "(k, v) \<in> set (range_order s d) \<Longrightarrow> weight v < (\<Sum>kv\<leftarrow>d. Suc (weight (snd kv)))"
  by (simp add: set_range_order weight_dict_elem)

termination writeVal
  apply (relation "measure (\<lambda>(L, v, s). weight v)")
  apply (auto simp: weight_stream_dict dest: weight_enumerate_elem weight_range_elem)
  done

lemma write_writeBytes: "write b s = writeBytes b s"
  by (simp add: write_def writeBytes_def)

lemma fold_preserves:
  assumes "\<And>x s. x \<in> set xs \<Longrightarrow> P s \<Longrightarrow> P (f x s)" and "P s"
  shows "P (fold f xs s)"
  using assms by (induction xs arbitrary: s) auto

lemma writeVal_preserves:
  assumes wb: "\<And>b s. P s \<Longrightarrow> P (writeBytes b s)"
    and rn: "\<And>s. P s \<Longrightarrow> P (range_next s)"
  shows "P s \<Longrightarrow> P (writeVal L v s)"
proof (induction L v s rule: writeVal.induct)
  case (6 L v s)
  have "P (fold (\<lambda>jval s'. writeVal L (snd jval) (if fst jval \<noteq> 0 then write '' '' s' else s'))
          (enumerate 0 v) (write ''['' s))"
  proof (rule fold_preserves)
    show "P (write ''['' s)" using "6.prems" by (simp add: write_writeBytes wb)
  next
    fix x s' assume "x \<in> set (enumerate 0 v)" "P s'"
    then show "P (writeVal L (snd x) (if fst x \<noteq> 0 then write '' '' s' else s'))"
      using "6.IH" [of x s'] by (simp add: write_writeBytes wb)
  qed
  then show ?case by (simp add: write_writeBytes wb)
next
  case (7 L v s)
  have "P (fold (\<lambda>kv s'. write '' '' (writeVal L (snd kv) (write '' '' (writeVal L (VName (fst kv)) s'))))
          (range_order (write ''<< '' s) v) (range_next (write ''<< '' s)))"
  proof (rule fold_preserves)
    show "P (range_next (write ''<< '' s))" using "7.prems" by (simp add: write_writeBytes wb rn)
  next
    fix x s' assume x: "x \<in> set (range_order (write ''<< '' s) v)" and s': "P s'"
    have "P (writeVal L (VName (fst x)) s')"
      using "7.IH"(1) [OF x] s' by simp
    then have "P (write '' '' (writeVal L (VName (fst x)) s'))"
      by (simp add: write_writeBytes wb)
    then have "P (writeVal L (snd x) (write '' '' (writeVal L (VName (fst x)) s')))"
      using "7.IH"(2) [OF x] by simp
    then show "P (write '' '' (writeVal L (snd x) (write '' '' (writeVal L (VName (fst x)) s'))))"
      by (simp add: write_writeBytes wb)
  qed
  then show ?case by (simp add: write_writeBytes wb)
next
  case (8 L dict filters b s)
  then show ?case by (simp add: write_writeBytes wb Let_def)
qed (simp_all add: write_writeBytes wb)


subsection \<open>What one write does\<close>

lemma writeBytes_sticky: "err s \<noteq> None \<Longrightarrow> writeBytes b s = s"
  by (simp add: writeBytes_def)

lemma Sink_Write_out:
  "Sink_Write k b = (n, e, k') \<Longrightarrow>
     \<exists>x. out k' = out k @ x \<and> n = int (length x) \<and> prefix x b \<and> (e = None \<longrightarrow> x = b)"
  by (auto simp: Sink_Write_def take_is_prefix min_def split: list.splits outcome.splits)

lemma writeBytes_fields [simp]:
  "objOffsets (writeBytes b s) = objOffsets s"
  "resources (writeBytes b s) = resources s"
  "graphicsStates (writeBytes b s) = graphicsStates s"
  "fonts (writeBytes b s) = fonts s"
  "width (writeBytes b s) = width s"
  "height (writeBytes b s) = height s"
  "mapiter (writeBytes b s) = mapiter s"
  by (simp_all add: writeBytes_def split: prod.splits)

lemma writeBytes_out:
  "\<exists>x. out (w (writeBytes b s)) = out (w s) @ x \<and> pos (writeBytes b s) = pos s + int (length x) \<and>
        prefix x b \<and> (err (writeBytes b s) = None \<longrightarrow> x = b \<and> err s = None) \<and>
        (err s \<noteq> None \<longrightarrow> x = [] \<and> err (writeBytes b s) = err s)"
proof (cases "err s = None")
  case True
  obtain n e k where sw: "Sink_Write (w s) b = (n, e, k)"
    by (cases "Sink_Write (w s) b") auto
  from Sink_Write_out [OF sw] show ?thesis
    using True sw by (auto simp: writeBytes_def)
next
  case False
  then show ?thesis by (auto simp: writeBytes_def)
qed

lemma range_next_fields [simp]:
  "w (range_next s) = w s" "err (range_next s) = err s" "pos (range_next s) = pos s"
  "objOffsets (range_next s) = objOffsets s" "resources (range_next s) = resources s"
  "graphicsStates (range_next s) = graphicsStates s" "fonts (range_next s) = fonts s"
  "width (range_next s) = width s" "height (range_next s) = height s"
  by (simp_all add: range_next_def)

text \<open>The part of the writer that the sink and a reader of the file can see.\<close>

lemma writeVal_fields [simp]:
  "objOffsets (writeVal L v s) = objOffsets s"
  "resources (writeVal L v s) = resources s"
  "graphicsStates (writeVal L v s) = graphicsStates s"
  "fonts (writeVal L v s) = fonts s"
  "width (writeVal L v s) = width s"
  "height (writeVal L v s) = height s"
proof -
  show "objOffsets (writeVal L v s) = objOffsets s"
    by (rule writeVal_preserves [where P = "\<lambda>t. objOffsets t = objOffsets s"]) simp_all
  show "resources (writeVal L v s) = resources s"
    by (rule writeVal_preserves [where P = "\<lambda>t. resources t = resources s"]) simp_all
  show "graphicsStates (writeVal L v s) = graphicsStates s"
    by (rule writeVal_preserves [where P = "\<lambda>t. graphicsStates t = graphicsStates s"]) simp_all
  show "fonts (writeVal L v s) = fonts s"
    by (rule writeVal_preserves [where P = "\<lambda>t. fonts t = fonts s"]) simp_all
  show "width (writeVal L v s) = width s"
    by (rule writeVal_preserves [where P = "\<lambda>t. width t = width s"]) simp_all
  show "height (writeVal L v s) = height s"
    by (rule writeVal_preserves [where P = "\<lambda>t. height t = height s"]) simp_all
qed

lemma writeVal_sticky:
  assumes "err s \<noteq> None"
  shows "w (writeVal L v s) = w s \<and> pos (writeVal L v s) = pos s \<and> err (writeVal L v s) = err s"
  by (rule writeVal_preserves [where P = "\<lambda>t. w t = w s \<and> pos t = pos s \<and> err t = err s"])
     (use assms in \<open>auto simp: writeBytes_sticky\<close>)

lemma header_at_writeBytes:
  assumes "header_at s i"
  shows "header_at (writeBytes b s) i"
proof -
  obtain x where x: "out (w (writeBytes b s)) = out (w s) @ x"
    and e: "err s \<noteq> None \<longrightarrow> x = [] \<and> err (writeBytes b s) = err s"
    using writeBytes_out [of b s] by blast
  let ?off = "objOffsets s ! i"
  from assms have off: "0 \<le> ?off" "?off \<le> int (length (out (w s)))"
    by (simp_all add: header_at_def Let_def)
  then have d: "drop (nat ?off) (out (w s) @ x) = drop (nat ?off) (out (w s)) @ x"
    by simp
  show ?thesis
  proof (cases "err s = None")
    case True
    with assms have "prefix (obj_header (Suc i)) (drop (nat ?off) (out (w s)))"
      by (simp add: header_at_def Let_def)
    then have "prefix (obj_header (Suc i)) (drop (nat ?off) (out (w s)) @ x)"
      by (rule prefix_prefix)
    with off show ?thesis
      by (simp add: header_at_def Let_def x d)
  next
    case False
    with e have "x = []" "err (writeBytes b s) = err s" by simp_all
    with assms show ?thesis
      by (simp add: header_at_def Let_def x)
  qed
qed

lemma offsets_inv_writeBytes: "offsets_inv s \<Longrightarrow> offsets_inv (writeBytes b s)"
  using writeBytes_out [of b s] by (auto simp: offsets_inv_def header_at_writeBytes)

lemma header_at_range_next: "header_at (range_next s) i = header_at s i"
  by (simp add: header_at_def)

lemma offsets_inv_range_next: "offsets_inv s \<Longrightarrow> offsets_inv (range_next s)"
  by (simp add: offsets_inv_def header_at_range_next)

lemma offsets_inv_writeVal: "offsets_inv s \<Longrightarrow> offsets_inv (writeVal L v s)"
  by (rule writeVal_preserves [where P = offsets_inv])
     (simp_all add: offsets_inv_writeBytes offsets_inv_range_next)

text \<open>Recording the offset and writing the header, the first two statements of \<^verbatim>\<open>WriteObject\<close>.\<close>

lemma offsets_inv_header:
  assumes "offsets_inv s"
  shows "offsets_inv (writeBytes (obj_header (Suc (length (objOffsets s))))
                        (s\<lparr>objOffsets := objOffsets s @ [pos s]\<rparr>))"
proof -
  let ?n = "length (objOffsets s)"
  let ?s1 = "s\<lparr>objOffsets := objOffsets s @ [pos s]\<rparr>"
  let ?h = "obj_header (Suc ?n)"
  let ?s2 = "writeBytes ?h ?s1"
  from assms have p: "pos s = int (length (out (w s)))"
    and old: "\<And>i. i < ?n \<Longrightarrow> header_at s i"
    by (simp_all add: offsets_inv_def)
  obtain x where x: "out (w ?s2) = out (w s) @ x" "pos ?s2 = pos s + int (length x)" "prefix x ?h"
    and ok: "err ?s2 = None \<longrightarrow> x = ?h"
    using writeBytes_out [of ?h ?s1] by auto
  have "header_at ?s2 i" if "i < Suc ?n" for i
  proof (cases "i < ?n")
    case True
    then have "header_at ?s1 i"
      using old [OF True] by (simp add: header_at_def nth_append)
    then show ?thesis by (rule header_at_writeBytes)
  next
    case False
    with that have i: "i = ?n" by simp
    have o: "objOffsets ?s2 ! ?n = pos s" by simp
    have n: "nat (pos s) = length (out (w s))" by (simp add: p)
    have d: "drop (nat (pos s)) (out (w ?s2)) = x"
      unfolding n x(1) by simp
    have le: "pos s \<le> int (length (out (w ?s2)))"
      unfolding x(1) by (simp add: p)
    have z: "0 \<le> pos s" by (simp add: p)
    show ?thesis
      unfolding header_at_def Let_def i o d using z le x(3) ok by auto
  qed
  moreover have "pos ?s2 = int (length (out (w ?s2)))"
    unfolding x(1) x(2) by (simp add: p)
  ultimately show ?thesis
    by (simp add: offsets_inv_def)
qed

lemma WriteObject_unfold:
  "WriteObject L v s =
     (int (Suc (length (objOffsets s))),
      writeBytes (NL @ ''endobj'' @ NL)
        (writeVal L v
           (writeBytes (obj_header (Suc (length (objOffsets s))))
              (s\<lparr>objOffsets := objOffsets s @ [pos s]\<rparr>))))"
  by (simp add: WriteObject_def Let_def write_writeBytes obj_header_def)

lemma offsets_inv_WriteObject: "offsets_inv s \<Longrightarrow> offsets_inv (snd (WriteObject L v s))"
  by (simp add: WriteObject_unfold offsets_inv_writeBytes offsets_inv_writeVal offsets_inv_header)

lemma objOffsets_WriteObject: "objOffsets (snd (WriteObject L v s)) = objOffsets s @ [pos s]"
  by (simp add: WriteObject_unfold)

lemma fst_WriteObject: "fst (WriteObject L v s) = int (length (objOffsets s)) + 1"
  by (simp add: WriteObject_unfold)

lemma offsets_inv_view: "sink_view t = sink_view s \<Longrightarrow> offsets_inv s \<Longrightarrow> offsets_inv t"
  by (simp add: offsets_inv_def header_at_def sink_view_def)

lemma GetOpacityGS_view: "sink_view (snd (GetOpacityGS a s)) = sink_view s"
  by (simp add: GetOpacityGS_def Let_def sink_view_def split: option.splits val.splits)

lemma GetFont_view:
  "sink_view (snd (GetFont L f s)) =
     (if dict_get (fonts s) (addr f) = None \<and> fst (Raw (deref f)) = ''font/ttf''
      then sink_view (snd (WriteObject L (font_object f) s)) else sink_view s)"
  by (simp add: GetFont_def Let_def sink_view_def font_object_def
           split: option.splits val.splits prod.splits)

lemma offsets_inv_GetOpacityGS: "offsets_inv s \<Longrightarrow> offsets_inv (snd (GetOpacityGS a s))"
  by (rule offsets_inv_view [OF GetOpacityGS_view])

lemma offsets_inv_GetFont:
  assumes "offsets_inv s"
  shows "offsets_inv (snd (GetFont L f s))"
proof (cases "dict_get (fonts s) (addr f) = None \<and> fst (Raw (deref f)) = ''font/ttf''")
  case True
  then have "sink_view (snd (GetFont L f s)) = sink_view (snd (WriteObject L (font_object f) s))"
    by (simp add: GetFont_view)
  then show ?thesis
    using offsets_inv_WriteObject [OF assms] by (rule offsets_inv_view)
next
  case False
  then have "sink_view (snd (GetFont L f s)) = sink_view s"
    using GetFont_view [of L f s] by auto
  then show ?thesis
    using assms by (rule offsets_inv_view)
qed

lemma offsets_inv_Close_xref: "offsets_inv s \<Longrightarrow> offsets_inv (Close_xref L r s)"
proof -
  assume a: "offsets_inv s"
  have f: "offsets_inv (fold (\<lambda>objOffset. write (xref_entry objOffset)) xs t)" if "offsets_inv t" for xs t
    using that by (induction xs arbitrary: t) (simp_all add: write_writeBytes offsets_inv_writeBytes)
  show ?thesis
    unfolding Close_xref_def Let_def
    by (intro offsets_inv_writeBytes [folded write_writeBytes] offsets_inv_writeVal f a)
qed

lemma offsets_inv_Close: "offsets_inv s \<Longrightarrow> offsets_inv (snd (Close L s))"
proof -
  assume a: "offsets_inv s"
  have "offsets_inv (snd (WriteObject L v3 (snd (WriteObject L v2 (snd (WriteObject L v1 s))))))"
    for v1 v2 v3
    by (intro offsets_inv_WriteObject a)
  then show ?thesis
    by (simp add: Close_def Let_def split_beta offsets_inv_Close_xref)
qed

lemma offsets_inv_step: "offsets_inv s \<Longrightarrow> offsets_inv (step L x s)"
  by (cases x)
     (simp_all add: offsets_inv_WriteObject offsets_inv_GetOpacityGS offsets_inv_GetFont
        offsets_inv_Close)

lemma offsets_inv_run: "offsets_inv s \<Longrightarrow> offsets_inv (run L ops s)"
  unfolding run_def by (induction ops arbitrary: s) (simp_all add: offsets_inv_step)

lemma offsets_inv_New: "offsets_inv (NewPDFWriter iter \<lparr>out = [], script = sc\<rparr> wd ht)"
  unfolding NewPDFWriter_def write_writeBytes
  by (rule offsets_inv_writeBytes) (simp add: offsets_inv_def)

section \<open>The offset table\<close>

text \<open>
  C1. In every state that a run of the public operations reaches from a new
  writer on an empty sink, the position counter is the number of bytes the sink
  holds, every entry \<open>i\<close> of the offset table is the position at which the header
  of object \<open>i + 1\<close> begins (\<open>header_at\<close>), and a further \<^verbatim>\<open>WriteObject\<close> records
  exactly the number of bytes the sink holds before the header is emitted.
\<close>

theorem C1_recorded_offsets:
  "let s = run L ops (NewPDFWriter iter (empty_sink sc) wd ht)
   in pos s = int (length (out (w s))) \<and>
      (\<forall>i<length (objOffsets s). header_at s i) \<and>
      (\<forall>v. objOffsets (snd (WriteObject L v s)) = objOffsets s @ [int (length (out (w s)))])"
proof -
  let ?s = "run L ops (NewPDFWriter iter (empty_sink sc) wd ht)"
  have "offsets_inv ?s"
    unfolding empty_sink_def by (rule offsets_inv_run [OF offsets_inv_New])
  then have "pos ?s = int (length (out (w ?s)))" "\<forall>i<length (objOffsets ?s). header_at ?s i"
    by (simp_all add: offsets_inv_def)
  then show ?thesis
    by (simp add: Let_def objOffsets_WriteObject)
qed


theorem C1_recorded_offsets_witness:
  "let s = run example_Lib [OpWriteObject (VStream None [] ''hello'')]
             (NewPDFWriter [] (empty_sink []) 100 200)
   in pos s = 63 \<and> objOffsets s = [9] \<and> 0 < length (objOffsets s) \<and> header_at s 0 \<and>
      objOffsets (snd (WriteObject example_Lib (VInt 7) s)) = [9, 63]"
proof -
  let ?s = "run example_Lib [OpWriteObject (VStream None [] ''hello'')]
              (NewPDFWriter [] (empty_sink []) 100 200)"
  note c1 = C1_recorded_offsets [of example_Lib "[OpWriteObject (VStream None [] ''hello'')]"
      "[]" "[]" 100 200, unfolded Let_def]
  have len: "int (length (out (w ?s))) = 63" by code_simp
  have offs: "objOffsets ?s = [9]" by code_simp
  have n: "0 < length (objOffsets ?s)" by code_simp
  from c1 n have "header_at ?s 0" by blast
  moreover from c1 len have "pos ?s = 63" by simp
  moreover from c1 have "objOffsets (snd (WriteObject example_Lib (VInt 7) ?s))
      = objOffsets ?s @ [int (length (out (w ?s)))]" by blast
  ultimately show ?thesis
    unfolding Let_def using len offs n by simp
qed

section \<open>The sticky error\<close>

lemma writeBytes_step:
  "err s = None \<Longrightarrow> Sink_Write (w s) b = (n, e, k) \<Longrightarrow>
     writeBytes b s = s\<lparr>w := k, pos := pos s + n, err := e\<rparr>"
  by (simp add: writeBytes_def)

lemma io_state_writeBytes_sticky: "err s \<noteq> None \<Longrightarrow> io_state (writeBytes b s) = io_state s"
  by (simp add: writeBytes_sticky)

lemma io_state_writeVal_sticky: "err s \<noteq> None \<Longrightarrow> io_state (writeVal L v s) = io_state s"
  using writeVal_sticky [of s L v] by (simp add: io_state_def)

lemma io_state_eq_err: "io_state t = io_state s \<Longrightarrow> err t = err s"
  by (simp add: io_state_def)

lemma io_state_WriteObject_sticky:
  assumes "err s \<noteq> None"
  shows "io_state (snd (WriteObject L v s)) = io_state s"
proof -
  let ?s1 = "s\<lparr>objOffsets := objOffsets s @ [pos s]\<rparr>"
  let ?s2 = "writeBytes (obj_header (Suc (length (objOffsets s)))) ?s1"
  let ?s3 = "writeVal L v ?s2"
  have 1: "io_state ?s1 = io_state s" by (simp add: io_state_def)
  have e1: "err ?s1 \<noteq> None" using assms by simp
  have 2: "io_state ?s2 = io_state ?s1" using e1 by (rule io_state_writeBytes_sticky)
  have e2: "err ?s2 \<noteq> None" using io_state_eq_err [OF 2] e1 by simp
  have 3: "io_state ?s3 = io_state ?s2" using e2 by (rule io_state_writeVal_sticky)
  have e3: "err ?s3 \<noteq> None" using io_state_eq_err [OF 3] e2 by simp
  have 4: "io_state (writeBytes (NL @ ''endobj'' @ NL) ?s3) = io_state ?s3"
    using e3 by (rule io_state_writeBytes_sticky)
  show ?thesis
    unfolding WriteObject_unfold snd_conv using 1 2 3 4 by simp
qed

lemma io_state_GetOpacityGS: "io_state (snd (GetOpacityGS a s)) = io_state s"
  using GetOpacityGS_view [of a s] by (simp add: sink_view_def io_state_def)

lemma io_state_GetFont_sticky:
  assumes "err s \<noteq> None"
  shows "io_state (snd (GetFont L f s)) = io_state s"
proof -
  have "io_state (snd (WriteObject L (font_object f) s)) = io_state s"
    using assms by (rule io_state_WriteObject_sticky)
  then show ?thesis
    using GetFont_view [of L f s] by (auto simp: sink_view_def io_state_def split: if_splits)
qed

lemma io_state_fold_write_sticky:
  "err s \<noteq> None \<Longrightarrow> fold (\<lambda>x. write (g x)) xs s = s"
  by (induction xs) (simp_all add: write_writeBytes writeBytes_sticky)

lemma io_state_Close_xref_sticky:
  assumes "err s \<noteq> None"
  shows "io_state (Close_xref L r s) = io_state s"
proof -
  let ?v = "Close_trailer r s"
  have e: "err (writeVal L ?v s) \<noteq> None"
    using io_state_eq_err [OF io_state_writeVal_sticky [OF assms, of L ?v]] assms by simp
  show ?thesis
    unfolding Close_xref_def Let_def write_writeBytes
    using assms e
    by (simp add: writeBytes_sticky io_state_fold_write_sticky [unfolded write_writeBytes]
          io_state_writeVal_sticky)
qed

lemma io_state_Close_sticky:
  assumes "err s \<noteq> None"
  shows "io_state (snd (Close L s)) = io_state s"
proof -
  obtain r1 s1 where 1: "WriteObject L (Close_page s) s = (r1, s1)" by force
  obtain r2 s2 where 2: "WriteObject L (Close_pages r1) s1 = (r2, s2)" by force
  obtain r3 s3 where 3: "WriteObject L (Close_catalog r2) s2 = (r3, s3)" by force
  have i1: "io_state s1 = io_state s"
    using io_state_WriteObject_sticky [OF assms, of L "Close_page s"] 1 by simp
  then have e1: "err s1 \<noteq> None" using assms by (simp add: io_state_def)
  have i2: "io_state s2 = io_state s1"
    using io_state_WriteObject_sticky [OF e1, of L "Close_pages r1"] 2 by simp
  then have e2: "err s2 \<noteq> None" using e1 by (simp add: io_state_def)
  have i3: "io_state s3 = io_state s2"
    using io_state_WriteObject_sticky [OF e2, of L "Close_catalog r2"] 3 by simp
  then have e3: "err s3 \<noteq> None" using e2 by (simp add: io_state_def)
  have "io_state (Close_xref L r3 s3) = io_state s3"
    using e3 by (rule io_state_Close_xref_sticky)
  then show ?thesis
    using i1 i2 i3 by (simp add: Close_def Let_def 1 2 3)
qed

lemma fst_Close: "fst (Close L s) = err (snd (Close L s))"
  by (simp add: Close_def Let_def split_beta)

lemma io_state_step_sticky: "err s \<noteq> None \<Longrightarrow> io_state (step L x s) = io_state s"
  by (cases x)
     (simp_all add: io_state_WriteObject_sticky io_state_GetOpacityGS io_state_GetFont_sticky
        io_state_Close_sticky)

lemma io_state_run_sticky: "err s \<noteq> None \<Longrightarrow> io_state (run L ops s) = io_state s"
proof (induction ops arbitrary: s)
  case Nil
  then show ?case by (simp add: run_def)
next
  case (Cons x xs)
  have 1: "io_state (step L x s) = io_state s"
    using Cons.prems by (rule io_state_step_sticky)
  then have "err (step L x s) \<noteq> None"
    using Cons.prems by (simp add: io_state_def)
  from Cons.IH [OF this] 1 show ?case
    by (simp add: run_def)
qed

subsection \<open>A sink that never fails\<close>

lemma healthy_writeBytes:
  assumes "healthy s"
  shows "healthy (writeBytes b s)" and "out (w (writeBytes b s)) = out (w s) @ b"
    and "pos (writeBytes b s) = pos s + int (length b)"
  using assms
  by (auto simp: healthy_def never_fails_def writeBytes_def Sink_Write_def
        split: list.splits outcome.splits)

lemma healthy_range_next: "healthy s \<Longrightarrow> healthy (range_next s)"
  by (simp add: healthy_def)

lemma healthy_writeVal: "healthy s \<Longrightarrow> healthy (writeVal L v s)"
  by (rule writeVal_preserves [where P = healthy]) (simp_all add: healthy_writeBytes healthy_range_next)

lemma healthy_WriteObject: "healthy s \<Longrightarrow> healthy (snd (WriteObject L v s))"
  unfolding WriteObject_unfold snd_conv
  by (intro healthy_writeBytes(1) healthy_writeVal) (simp add: healthy_def)

lemma healthy_fold_write: "healthy s \<Longrightarrow> healthy (fold (\<lambda>x. write (g x)) xs s)"
  by (induction xs arbitrary: s) (simp_all add: write_writeBytes healthy_writeBytes)

lemma healthy_Close_xref: "healthy s \<Longrightarrow> healthy (Close_xref L r s)"
  unfolding Close_xref_def Let_def
  by (intro healthy_writeBytes(1) [folded write_writeBytes] healthy_writeVal healthy_fold_write)

lemma healthy_Close: "healthy s \<Longrightarrow> healthy (snd (Close L s))"
  by (simp add: Close_def Let_def split_beta healthy_Close_xref healthy_WriteObject)


text \<open>
  C2. A write on a writer without an error hands the block to the sink once,
  adds the count the sink returns to the position and stores the error the sink
  returns, also when the sink took only part of the block. Once the error flag
  is set, \<^verbatim>\<open>writeBytes\<close> and \<^verbatim>\<open>write\<close> return the writer unchanged, and the
  serializer, \<^verbatim>\<open>WriteObject\<close>, both resource lookups and \<^verbatim>\<open>Close\<close> leave the
  sink, the position and the error as they are; the flag keeps that first
  error through any run of operations and \<^verbatim>\<open>Close\<close> returns it. \<^verbatim>\<open>Close\<close>
  returns the error flag, which is nil when the sink never fails.
\<close>

theorem C2_sticky_error:
  "(err s = None \<longrightarrow>
      (\<forall>b n e k. Sink_Write (w s) b = (n, e, k) \<longrightarrow>
         writeBytes b s = s\<lparr>w := k, pos := pos s + n, err := e\<rparr> \<and>
         write b s = s\<lparr>w := k, pos := pos s + n, err := e\<rparr>)) \<and>
   (\<forall>e. err s = Some e \<longrightarrow>
      (\<forall>b. writeBytes b s = s \<and> write b s = s) \<and>
      (\<forall>L v. io_state (writeVal L v s) = io_state s \<and>
             io_state (snd (WriteObject L v s)) = io_state s) \<and>
      (\<forall>a. io_state (snd (GetOpacityGS a s)) = io_state s) \<and>
      (\<forall>L f. io_state (snd (GetFont L f s)) = io_state s) \<and>
      (\<forall>L. io_state (snd (Close L s)) = io_state s \<and> fst (Close L s) = Some e) \<and>
      (\<forall>L ops. err (run L ops s) = Some e \<and> fst (Close L (run L ops s)) = Some e)) \<and>
   (\<forall>L. fst (Close L s) = err (snd (Close L s))) \<and>
   (healthy s \<longrightarrow> (\<forall>L. fst (Close L s) = None))"
proof (intro conjI allI impI)
  fix b n e k
  assume "err s = None" "Sink_Write (w s) b = (n, e, k)"
  then show "writeBytes b s = s\<lparr>w := k, pos := pos s + n, err := e\<rparr>"
    by (rule writeBytes_step)
  then show "write b s = s\<lparr>w := k, pos := pos s + n, err := e\<rparr>"
    by (simp add: write_writeBytes)
next
  fix e b assume e: "err s = Some e"
  then show "writeBytes b s = s" by (simp add: writeBytes_sticky)
  then show "write b s = s" by (simp add: write_writeBytes)
next
  fix e L v assume e: "err s = Some e"
  then show "io_state (writeVal L v s) = io_state s" by (simp add: io_state_writeVal_sticky)
  from e show "io_state (snd (WriteObject L v s)) = io_state s"
    by (simp add: io_state_WriteObject_sticky)
next
  fix e a assume "err s = Some e"
  show "io_state (snd (GetOpacityGS a s)) = io_state s" by (rule io_state_GetOpacityGS)
next
  fix e L f assume "err s = Some e"
  then show "io_state (snd (GetFont L f s)) = io_state s" by (simp add: io_state_GetFont_sticky)
next
  fix e L assume e: "err s = Some e"
  then show c: "io_state (snd (Close L s)) = io_state s" by (simp add: io_state_Close_sticky)
  show "fst (Close L s) = Some e"
    using io_state_eq_err [OF c] e by (simp add: fst_Close)
next
  fix e L ops assume e: "err s = Some e"
  then have r: "io_state (run L ops s) = io_state s" by (simp add: io_state_run_sticky)
  then show re: "err (run L ops s) = Some e" using e by (simp add: io_state_def)
  then have "io_state (snd (Close L (run L ops s))) = io_state (run L ops s)"
    by (simp add: io_state_Close_sticky)
  then show "fst (Close L (run L ops s)) = Some e"
    using re by (simp add: fst_Close io_state_def)
next
  fix L show "fst (Close L s) = err (snd (Close L s))" by (rule fst_Close)
next
  fix L assume "healthy s"
  then have "healthy (snd (Close L s))" by (rule healthy_Close)
  then show "fst (Close L s) = None" by (simp add: fst_Close healthy_def)
qed

theorem C2_sticky_error_witness:
  "let s0 = NewPDFWriter [] (empty_sink [Accept, Fail 3 ErrClosedPipe]) 100 200;
       s1 = writeBytes ''abcdef'' s0
   in err s0 = None \<and> pos s0 = 9 \<and>
      Sink_Write (w s0) ''abcdef'' =
        (3, Some ErrClosedPipe, \<lparr>out = ''%PDF-1.7'' @ NL @ ''abc'', script = []\<rparr>) \<and>
      s1 = s0\<lparr>w := \<lparr>out = ''%PDF-1.7'' @ NL @ ''abc'', script = []\<rparr>, pos := 9 + 3,
               err := Some ErrClosedPipe\<rparr> \<and>
      err s1 = Some ErrClosedPipe \<and>
      write ''xyz'' s1 = s1 \<and>
      io_state (snd (WriteObject example_Lib (VInt 7) s1)) = io_state s1 \<and>
      fst (Close example_Lib (run example_Lib [OpWriteObject (VInt 7), OpGetOpacityGS 5] s1))
        = Some ErrClosedPipe \<and>
      healthy (NewPDFWriter [] (empty_sink []) 100 200) \<and>
      fst (Close example_Lib (NewPDFWriter [] (empty_sink []) 100 200)) = None"
proof -
  let ?s0 = "NewPDFWriter [] (empty_sink [Accept, Fail 3 ErrClosedPipe]) 100 200"
  let ?k = "\<lparr>out = ''%PDF-1.7'' @ NL @ ''abc'', script = []\<rparr>"
  let ?s1 = "writeBytes ''abcdef'' ?s0"
  let ?h = "NewPDFWriter [] (empty_sink []) 100 200"
  have e0: "err ?s0 = None" by code_simp
  have p0: "pos ?s0 = 9" by code_simp
  have sw: "Sink_Write (w ?s0) ''abcdef'' = (3, Some ErrClosedPipe, ?k)" by code_simp
  have s1: "?s1 = ?s0\<lparr>w := ?k, pos := 9 + 3, err := Some ErrClosedPipe\<rparr>"
    using C2_sticky_error [of ?s0] e0 sw p0 by simp
  have e1: "err ?s1 = Some ErrClosedPipe"
    unfolding s1 by simp
  have h: "healthy ?h" by code_simp
  note c1 = C2_sticky_error [of ?s1]
  note ch = C2_sticky_error [of ?h]
  have "write ''xyz'' ?s1 = ?s1" using c1 e1 by blast
  moreover have "io_state (snd (WriteObject example_Lib (VInt 7) ?s1)) = io_state ?s1"
    using c1 e1 by blast
  moreover have "fst (Close example_Lib (run example_Lib [OpWriteObject (VInt 7), OpGetOpacityGS 5] ?s1))
      = Some ErrClosedPipe"
    using c1 e1 by blast
  moreover have "fst (Close example_Lib ?h) = None" using ch h by blast
  ultimately show ?thesis
    unfolding Let_def using e0 p0 sw s1 e1 h by blast
qed

section \<open>Values outside the type switch\<close>

text \<open>
  C10. For a value of a dynamic type that no case of the type switch matches
  (a \<^verbatim>\<open>bool\<close>, an \<^verbatim>\<open>int64\<close>, the nil interface) the serializer returns the
  writer unchanged, so it emits no byte. \<^verbatim>\<open>WriteObject\<close> on such a value still
  records the offset, returns the next reference and writes the header line and
  the \<^verbatim>\<open>endobj\<close> line with nothing between them; on a writer without an error
  whose sink never fails, both lines reach the sink and no error is set.
\<close>

theorem C10_unsupported_value:
  "unsupported v \<Longrightarrow>
     writeVal L v s = s \<and>
     WriteObject L v s =
       (int (length (objOffsets s)) + 1,
        write (NL @ ''endobj'' @ NL)
          (write (obj_header (Suc (length (objOffsets s))))
             (s\<lparr>objOffsets := objOffsets s @ [pos s]\<rparr>))) \<and>
     (healthy s \<longrightarrow>
        err (snd (WriteObject L v s)) = None \<and>
        out (w (snd (WriteObject L v s))) =
          out (w s) @ obj_header (Suc (length (objOffsets s))) @ NL @ ''endobj'' @ NL)"
proof -
  assume u: "unsupported v"
  then have wv: "writeVal L v t = t" for t
    by (cases v) simp_all
  have wo: "WriteObject L v s =
       (int (length (objOffsets s)) + 1,
        write (NL @ ''endobj'' @ NL)
          (write (obj_header (Suc (length (objOffsets s))))
             (s\<lparr>objOffsets := objOffsets s @ [pos s]\<rparr>)))"
    by (simp add: WriteObject_unfold wv write_writeBytes)
  have "err (snd (WriteObject L v s)) = None \<and>
        out (w (snd (WriteObject L v s))) =
          out (w s) @ obj_header (Suc (length (objOffsets s))) @ NL @ ''endobj'' @ NL"
    if h: "healthy s"
  proof -
    let ?s1 = "s\<lparr>objOffsets := objOffsets s @ [pos s]\<rparr>"
    let ?s2 = "writeBytes (obj_header (Suc (length (objOffsets s)))) ?s1"
    have h1: "healthy ?s1" using h by (simp add: healthy_def)
    have h2: "healthy ?s2" using h1 by (rule healthy_writeBytes(1))
    have o2: "out (w ?s2) = out (w s) @ obj_header (Suc (length (objOffsets s)))"
      using healthy_writeBytes(2) [OF h1] by simp
    have "healthy (writeBytes (NL @ ''endobj'' @ NL) ?s2)"
      using h2 by (rule healthy_writeBytes(1))
    moreover have "out (w (writeBytes (NL @ ''endobj'' @ NL) ?s2)) = out (w ?s2) @ NL @ ''endobj'' @ NL"
      using h2 by (rule healthy_writeBytes(2))
    ultimately show ?thesis
      unfolding wo snd_conv write_writeBytes o2 by (simp add: healthy_def)
  qed
  with wv wo show ?thesis by blast
qed

theorem C10_unsupported_value_witness:
  "unsupported (VBool True) \<and> healthy (NewPDFWriter [] (empty_sink []) 100 200) \<and>
   writeVal example_Lib (VBool True) (NewPDFWriter [] (empty_sink []) 100 200)
     = NewPDFWriter [] (empty_sink []) 100 200 \<and>
   fst (WriteObject example_Lib (VBool True) (NewPDFWriter [] (empty_sink []) 100 200)) = 1 \<and>
   err (snd (WriteObject example_Lib (VBool True) (NewPDFWriter [] (empty_sink []) 100 200))) = None \<and>
   out (w (snd (WriteObject example_Lib (VBool True) (NewPDFWriter [] (empty_sink []) 100 200))))
     = ''%PDF-1.7'' @ NL @ ''1 0 obj'' @ NL @ NL @ ''endobj'' @ NL"
proof -
  let ?s = "NewPDFWriter [] (empty_sink []) 100 200"
  let ?r = "WriteObject example_Lib (VBool True) ?s"
  have u: "unsupported (VBool True)" by simp
  have h: "healthy ?s" by code_simp
  have o: "out (w ?s) = ''%PDF-1.7'' @ NL" by code_simp
  have n: "int (length (objOffsets ?s)) + 1 = 1" by code_simp
  have hd: "obj_header (Suc (length (objOffsets ?s))) = ''1 0 obj'' @ NL" by code_simp
  note c = C10_unsupported_value [OF u, of example_Lib ?s]
  from c have 1: "writeVal example_Lib (VBool True) ?s = ?s" by blast
  from c have "fst ?r = int (length (objOffsets ?s)) + 1" by simp
  then have 2: "fst ?r = 1" unfolding n .
  from c h have 3: "err (snd ?r) = None" by blast
  from c h have "out (w (snd ?r)) =
      out (w ?s) @ obj_header (Suc (length (objOffsets ?s))) @ NL @ ''endobj'' @ NL" by blast
  then have 4: "out (w (snd ?r)) = ''%PDF-1.7'' @ NL @ ''1 0 obj'' @ NL @ NL @ ''endobj'' @ NL"
    unfolding o hd by simp
  from u h 1 2 3 4 show ?thesis by blast
qed

theorem C2_sticky_error_counterexample:
  "err failed_writer = Some ErrClosedPipe \<and>
   out (w failed_writer) = ''%PDF-1.7'' @ NL @ ''1 0'' \<and>
   WriteObject example_Lib (VInt 7) failed_writer =
     (2, failed_writer\<lparr>objOffsets := [9, 12]\<rparr>) \<and>
   failed_writer\<lparr>objOffsets := [9, 12]\<rparr> \<noteq> failed_writer \<and>
   GetOpacityGS f64_half failed_writer =
     (Inr ''GS0'',
      failed_writer
        \<lparr>resources := [(''ExtGState'', VDict [(''GS0'', VDict [(''ca'', VFloat f64_half)])]),
                       (''Font'', VDict [])],
         graphicsStates := [(f64_half, ''GS0'')]\<rparr>) \<and>
   snd (GetOpacityGS f64_half failed_writer) \<noteq> failed_writer"
  by code_simp

section \<open>Streams\<close>

lemma collect_filters_rev:
  "n \<le> length fs \<Longrightarrow> collect_filters fs n acc = acc @ map VName (rev (take n fs))"
proof (induction n arbitrary: acc)
  case 0
  then show ?case by simp
next
  case (Suc n)
  then have "take (Suc n) fs = take n fs @ [fs ! n]"
    by (simp add: take_Suc_conv_app_nth)
  with Suc show ?case by simp
qed

lemma fold_apply_filter: "fold (apply_filter L) fs b = pipeline L fs b"
  by (induction fs arbitrary: b) simp_all

lemma stream_dict_spec:
  "stream_dict dict (collect_filters fs (length fs) []) b =
     with_Length b (with_Filter fs (case dict of None \<Rightarrow> [] | Some d \<Rightarrow> d))"
proof -
  have c: "collect_filters fs (length fs) [] = map VName (rev fs)"
    by (simp add: collect_filters_rev)
  have "stream_dict dict (map VName (rev fs)) b =
     with_Length b (with_Filter fs (case dict of None \<Rightarrow> [] | Some d \<Rightarrow> d))"
    by (cases fs rule: Filter_entry.cases)
       (simp_all add: stream_dict_def with_Length_def with_Filter_def)
  then show ?thesis
    unfolding c .
qed

lemma dict_get_dict_set: "dict_get (dict_set k v d) k' = (if k' = k then Some v else dict_get d k')"
  by (induction d) auto

text \<open>
  C3. Rendering a stream runs the payload through the filters in list order,
  each stage feeding the next (\<open>pipeline\<close>); it renders the stream's dictionary
  (the empty one for a nil dictionary) after assigning \<^verbatim>\<open>Filter\<close> (not assigned
  for an empty filter list, the filter's name for one filter, the array of the
  names in reverse order for more) and \<^verbatim>\<open>Length\<close>, the number of bytes of the
  encoded payload; then it writes the \<^verbatim>\<open>stream\<close> line, the encoded payload and
  the \<^verbatim>\<open>endstream\<close> line.
\<close>

theorem C3_stream_rendering:
  "writeVal L (VStream dict filters b) s =
     write (NL @ ''endstream'')
       (writeBytes (pipeline L filters b)
          (write (NL @ ''stream'' @ NL)
             (writeVal L
                (VDict (with_Length (pipeline L filters b)
                          (with_Filter filters (case dict of None \<Rightarrow> [] | Some d \<Rightarrow> d))))
                s))) \<and>
   dict_get (with_Length (pipeline L filters b)
               (with_Filter filters (case dict of None \<Rightarrow> [] | Some d \<Rightarrow> d))) ''Length''
     = Some (VInt (int (length (pipeline L filters b)))) \<and>
   dict_get (with_Length (pipeline L filters b)
               (with_Filter filters (case dict of None \<Rightarrow> [] | Some d \<Rightarrow> d))) ''Filter''
     = (case filters of
          [] \<Rightarrow> dict_get (case dict of None \<Rightarrow> [] | Some d \<Rightarrow> d) ''Filter''
        | [f] \<Rightarrow> Some (VName f)
        | f # g # fs \<Rightarrow> Some (VArray (map VName (rev filters))))"
proof (intro conjI)
  show "writeVal L (VStream dict filters b) s =
     write (NL @ ''endstream'')
       (writeBytes (pipeline L filters b)
          (write (NL @ ''stream'' @ NL)
             (writeVal L
                (VDict (with_Length (pipeline L filters b)
                          (with_Filter filters (case dict of None \<Rightarrow> [] | Some d \<Rightarrow> d))))
                s)))"
    by (simp add: Let_def fold_apply_filter stream_dict_spec)
next
  show "dict_get (with_Length (pipeline L filters b)
               (with_Filter filters (case dict of None \<Rightarrow> [] | Some d \<Rightarrow> d))) ''Length''
     = Some (VInt (int (length (pipeline L filters b))))"
    by (simp add: with_Length_def dict_get_dict_set)
next
  show "dict_get (with_Length (pipeline L filters b)
               (with_Filter filters (case dict of None \<Rightarrow> [] | Some d \<Rightarrow> d))) ''Filter''
     = (case filters of
          [] \<Rightarrow> dict_get (case dict of None \<Rightarrow> [] | Some d \<Rightarrow> d) ''Filter''
        | [f] \<Rightarrow> Some (VName f)
        | f # g # fs \<Rightarrow> Some (VArray (map VName (rev filters))))"
    by (cases filters rule: Filter_entry.cases)
       (simp_all add: with_Length_def with_Filter_def dict_get_dict_set)
qed

theorem C3_stream_rendering_witness:
  "out (w (writeVal example_Lib (VStream None [] ''hello'') (NewPDFWriter [] (empty_sink []) 100 200)))
     = ''%PDF-1.7'' @ NL @ ''<< /Length 5 >>'' @ NL @ ''stream'' @ NL @ ''hello'' @ NL @ ''endstream'' \<and>
   writeVal example_Lib (VStream (Some []) [PDFFilterFlate, PDFFilterASCII85] ''hello'')
       (NewPDFWriter [] (empty_sink []) 100 200)
     = write (NL @ ''endstream'')
         (writeBytes ''<~Zhello~>''
            (write (NL @ ''stream'' @ NL)
               (writeVal example_Lib
                  (VDict [(''Filter'', VArray [VName ''ASCII85Decode'', VName ''FlateDecode'']),
                          (''Length'', VInt 10)])
                  (NewPDFWriter [] (empty_sink []) 100 200))))"
proof -
  let ?s = "NewPDFWriter [] (empty_sink []) 100 200"
  let ?L = example_Lib
  let ?fs = "[PDFFilterFlate, PDFFilterASCII85]"
  note a = C3_stream_rendering [of ?L None "[]" "''hello''" ?s, THEN conjunct1]
  note b = C3_stream_rendering [of ?L "Some []" ?fs "''hello''" ?s, THEN conjunct1]
  have "out (w (write (NL @ ''endstream'')
       (writeBytes (pipeline ?L [] ''hello'')
          (write (NL @ ''stream'' @ NL)
             (writeVal ?L
                (VDict (with_Length (pipeline ?L [] ''hello'')
                          (with_Filter [] (case None of None \<Rightarrow> [] | Some d \<Rightarrow> d))))
                ?s)))))
     = ''%PDF-1.7'' @ NL @ ''<< /Length 5 >>'' @ NL @ ''stream'' @ NL @ ''hello'' @ NL @ ''endstream''"
    by code_simp
  then have 1: "out (w (writeVal ?L (VStream None [] ''hello'') ?s))
     = ''%PDF-1.7'' @ NL @ ''<< /Length 5 >>'' @ NL @ ''stream'' @ NL @ ''hello'' @ NL @ ''endstream''"
    unfolding a .
  have p: "pipeline ?L ?fs ''hello'' = ''<~Zhello~>''"
    by (simp add: apply_filter_def PDFFilterFlate_def PDFFilterASCII85_def example_Lib_def)
  have d: "with_Length ''<~Zhello~>'' (with_Filter ?fs (case Some [] of None \<Rightarrow> [] | Some d \<Rightarrow> d))
      = [(''Filter'', VArray [VName ''ASCII85Decode'', VName ''FlateDecode'']), (''Length'', VInt 10)]"
    by (simp add: with_Length_def with_Filter_def PDFFilterFlate_def PDFFilterASCII85_def)
  from b have 2: "writeVal ?L (VStream (Some []) ?fs ''hello'') ?s
     = write (NL @ ''endstream'')
         (writeBytes ''<~Zhello~>''
            (write (NL @ ''stream'' @ NL)
               (writeVal ?L
                  (VDict [(''Filter'', VArray [VName ''ASCII85Decode'', VName ''FlateDecode'']),
                          (''Length'', VInt 10)])
                  ?s)))"
    unfolding p d .
  from 1 2 show ?thesis by (rule conjI)
qed

section \<open>Fonts of an unsupported format\<close>

text \<open>
  C9. When the font is not in the cache and its format tag is not
  \<^verbatim>\<open>font/ttf\<close>, \<^verbatim>\<open>GetFont\<close> panics and the writer is as it was before the call:
  no byte written, no offset recorded, no cache entry. When the format tag is
  \<^verbatim>\<open>font/ttf\<close>, \<^verbatim>\<open>GetFont\<close> does not raise that panic.
\<close>

theorem C9_font_format_panic:
  "(dict_get (fonts s) (addr f) = None \<and> mimetype (deref f) \<noteq> ''font/ttf'' \<longrightarrow>
      GetFont L f s = (Inl (Panic ''only TTF format support for embedding fonts in PDFs''), s)) \<and>
   (mimetype (deref f) = ''font/ttf'' \<longrightarrow> (\<forall>m. fst (GetFont L f s) \<noteq> Inl (Panic m)))"
proof (intro conjI impI allI)
  assume "dict_get (fonts s) (addr f) = None \<and> mimetype (deref f) \<noteq> ''font/ttf''"
  then show "GetFont L f s = (Inl (Panic ''only TTF format support for embedding fonts in PDFs''), s)"
    by (simp add: GetFont_def Raw_def)
next
  fix m
  assume "mimetype (deref f) = ''font/ttf''"
  then show "fst (GetFont L f s) \<noteq> Inl (Panic m)"
    by (simp add: GetFont_def Raw_def Let_def split_beta split: option.split val.split)
qed

theorem C9_font_format_panic_witness:
  "dict_get (fonts new_writer) (addr otf_font) = None \<and>
   mimetype (deref otf_font) \<noteq> ''font/ttf'' \<and>
   GetFont example_Lib otf_font new_writer =
     (Inl (Panic ''only TTF format support for embedding fonts in PDFs''), new_writer) \<and>
   mimetype (deref (ttf_font_at 1)) = ''font/ttf'' \<and>
   fst (GetFont example_Lib (ttf_font_at 1) new_writer) \<noteq>
     Inl (Panic ''only TTF format support for embedding fonts in PDFs'')"
proof -
  have 1: "dict_get (fonts new_writer) (addr otf_font) = None" by code_simp
  have 2: "mimetype (deref otf_font) \<noteq> ''font/ttf''" by (simp add: otf_font_def)
  have 3: "mimetype (deref (ttf_font_at 1)) = ''font/ttf''" by (simp add: ttf_font_at_def)
  note a = C9_font_format_panic [of new_writer otf_font example_Lib]
  note b = C9_font_format_panic [of new_writer "ttf_font_at 1" example_Lib]
  from a 1 2 have "GetFont example_Lib otf_font new_writer =
     (Inl (Panic ''only TTF format support for embedding fonts in PDFs''), new_writer)"
    by blast
  moreover from b 3 have "fst (GetFont example_Lib (ttf_font_at 1) new_writer) \<noteq>
     Inl (Panic ''only TTF format support for embedding fonts in PDFs'')"
    by blast
  ultimately show ?thesis using 1 2 3 by blast
qed

section \<open>The font cache\<close>

lemma dict_get_dict_set_other: "k' \<noteq> k \<Longrightarrow> dict_get (dict_set k v d) k' = dict_get d k'"
  by (simp add: dict_get_dict_set)

lemma fonts_writeBytes_run_fields [simp]:
  "fonts (snd (WriteObject L v s)) = fonts s"
  "resources (snd (WriteObject L v s)) = resources s"
  "graphicsStates (snd (WriteObject L v s)) = graphicsStates s"
  by (simp_all add: WriteObject_unfold)

lemma fonts_GetOpacityGS [simp]: "fonts (snd (GetOpacityGS a s)) = fonts s"
  by (simp add: GetOpacityGS_def Let_def split: option.splits val.splits)

lemma fold_write_fields [simp]:
  "fonts (fold (\<lambda>x. write (g x)) xs s) = fonts s"
  "resources (fold (\<lambda>x. write (g x)) xs s) = resources s"
  "graphicsStates (fold (\<lambda>x. write (g x)) xs s) = graphicsStates s"
  "objOffsets (fold (\<lambda>x. write (g x)) xs s) = objOffsets s"
  by (induction xs arbitrary: s) (simp_all add: write_writeBytes)

lemma Close_xref_fields [simp]:
  "fonts (Close_xref L r s) = fonts s"
  "resources (Close_xref L r s) = resources s"
  "graphicsStates (Close_xref L r s) = graphicsStates s"
  "objOffsets (Close_xref L r s) = objOffsets s"
  by (simp_all add: Close_xref_def Let_def write_writeBytes)

lemma Close_fields [simp]:
  "fonts (snd (Close L s)) = fonts s"
  "resources (snd (Close L s)) = resources s"
  "graphicsStates (snd (Close L s)) = graphicsStates s"
  by (simp_all add: Close_def Let_def split_beta)

lemma GetFont_hit:
  "dict_get (fonts s) (addr f) = Some nm \<Longrightarrow> GetFont L f s = (Inr nm, s)"
  by (simp add: GetFont_def)

lemma GetFont_keeps:
  assumes "dict_get (fonts s) a = Some nm"
  shows "dict_get (fonts (snd (GetFont L f s))) a = Some nm"
proof (cases "dict_get (fonts s) (addr f)")
  case None
  with assms have ne: "a \<noteq> addr f" by auto
  show ?thesis
    using None assms ne
    by (simp add: GetFont_def Let_def split_beta dict_get_dict_set split: option.split val.split)
next
  case (Some m)
  then show ?thesis using assms by (simp add: GetFont_def)
qed

lemma GetFont_registers:
  assumes "fst (GetFont L f s) = Inr nm"
  shows "dict_get (fonts (snd (GetFont L f s))) (addr f) = Some nm"
proof (cases "dict_get (fonts s) (addr f)")
  case None
  with assms show ?thesis
    by (simp add: GetFont_def Let_def split_beta dict_get_dict_set
          split: option.splits val.splits if_splits)
next
  case (Some m)
  with assms show ?thesis by (simp add: GetFont_def)
qed

lemma step_keeps_font:
  "dict_get (fonts s) a = Some nm \<Longrightarrow> dict_get (fonts (step L x s)) a = Some nm"
  by (cases x) (simp_all add: GetFont_keeps)

lemma run_keeps_font:
  "dict_get (fonts s) a = Some nm \<Longrightarrow> dict_get (fonts (run L ops s)) a = Some nm"
  unfolding run_def by (induction ops arbitrary: s) (simp_all add: step_keeps_font)

lemma GetFont_objOffsets:
  "objOffsets (snd (GetFont L f s)) = objOffsets s \<or>
   objOffsets (snd (GetFont L f s)) = objOffsets s @ [pos s]"
  using GetFont_view [of L f s] objOffsets_WriteObject [of L "font_object f" s]
  by (auto simp: sink_view_def split: if_splits)

text \<open>
  C6, as the code has it. The cache key is the address the \<^verbatim>\<open>*Font\<close> holds. A
  call of \<^verbatim>\<open>GetFont\<close> records at most one object; once a call has returned a
  name for an address, every later call with a pointer to that address, after
  any run of operations, returns the same name and leaves the writer as it
  is, so no second font object is written for that address.
\<close>

theorem C6_font_cache:
  "(objOffsets (snd (GetFont L f s)) = objOffsets s \<or>
    objOffsets (snd (GetFont L f s)) = objOffsets s @ [pos s]) \<and>
   (fst (GetFont L f s) = Inr nm \<and> addr g = addr f \<longrightarrow>
      GetFont L g (run L ops (snd (GetFont L f s))) = (Inr nm, run L ops (snd (GetFont L f s))))"
proof (intro conjI impI)
  show "objOffsets (snd (GetFont L f s)) = objOffsets s \<or>
    objOffsets (snd (GetFont L f s)) = objOffsets s @ [pos s]"
    by (rule GetFont_objOffsets)
next
  assume a: "fst (GetFont L f s) = Inr nm \<and> addr g = addr f"
  then have "dict_get (fonts (snd (GetFont L f s))) (addr g) = Some nm"
    by (simp add: GetFont_registers)
  then have "dict_get (fonts (run L ops (snd (GetFont L f s)))) (addr g) = Some nm"
    by (rule run_keeps_font)
  then show "GetFont L g (run L ops (snd (GetFont L f s))) = (Inr nm, run L ops (snd (GetFont L f s)))"
    by (rule GetFont_hit)
qed

theorem C6_font_cache_witness:
  "fst (GetFont example_Lib (ttf_font_at 1) new_writer) = Inr ''F0'' \<and>
   addr (ttf_font_at 1) = addr (ttf_font_at 1) \<and>
   objOffsets (snd (GetFont example_Lib (ttf_font_at 1) new_writer)) = objOffsets new_writer @ [pos new_writer] \<and>
   GetFont example_Lib (ttf_font_at 1)
     (run example_Lib [OpWriteObject (VInt 7)] (snd (GetFont example_Lib (ttf_font_at 1) new_writer)))
   = (Inr ''F0'', run example_Lib [OpWriteObject (VInt 7)] (snd (GetFont example_Lib (ttf_font_at 1) new_writer)))"
proof -
  have 1: "fst (GetFont example_Lib (ttf_font_at 1) new_writer) = Inr ''F0''" by code_simp
  have 2: "objOffsets (snd (GetFont example_Lib (ttf_font_at 1) new_writer)) \<noteq> objOffsets new_writer"
    by code_simp
  note c = C6_font_cache [of example_Lib "ttf_font_at 1" new_writer "''F0''" "ttf_font_at 1"
      "[OpWriteObject (VInt 7)]"]
  from c 2 have "objOffsets (snd (GetFont example_Lib (ttf_font_at 1) new_writer))
      = objOffsets new_writer @ [pos new_writer]" by blast
  moreover from c 1 have "GetFont example_Lib (ttf_font_at 1)
     (run example_Lib [OpWriteObject (VInt 7)] (snd (GetFont example_Lib (ttf_font_at 1) new_writer)))
   = (Inr ''F0'', run example_Lib [OpWriteObject (VInt 7)] (snd (GetFont example_Lib (ttf_font_at 1) new_writer)))"
    by blast
  ultimately show ?thesis using 1 by blast
qed

theorem C6_font_cache_counterexample:
  "deref (ttf_font_at 1) = deref (ttf_font_at 2) \<and>
   fst (GetFont example_Lib (ttf_font_at 1) new_writer) = Inr ''F0'' \<and>
   fst (GetFont example_Lib (ttf_font_at 2) (snd (GetFont example_Lib (ttf_font_at 1) new_writer)))
     = Inr ''F1'' \<and>
   objOffsets new_writer = [] \<and>
   objOffsets (snd (GetFont example_Lib (ttf_font_at 2)
                      (snd (GetFont example_Lib (ttf_font_at 1) new_writer)))) = [9, 108]"
  by code_simp

section \<open>The opacity cache\<close>

lemma digit_val_digit_char: "d < 10 \<Longrightarrow> digit_val (digit_char d) = d"
proof -
  assume "d < 10"
  then have "d = 0 \<or> d = 1 \<or> d = 2 \<or> d = 3 \<or> d = 4 \<or> d = 5 \<or> d = 6 \<or> d = 7 \<or> d = 8 \<or> d = 9"
    by arith
  then show ?thesis
    by (elim disjE) (simp_all add: digit_char_def digit_val_def)
qed

lemma digits_val_digits: "digits_val (digits n) = n"
proof (induction n rule: digits.induct)
  case (1 n)
  show ?case
  proof (cases "n < 10")
    case True
    then show ?thesis
      by (subst digits.simps) (simp add: digits_val_def digit_val_digit_char)
  next
    case False
    then have "digits_val (digits (n div 10)) = n div 10"
      using "1.IH" by simp
    then have "digits_val (digits (n div 10) @ [digit_char (n mod 10)]) = 10 * (n div 10) + n mod 10"
      by (simp add: digits_val_def digit_val_digit_char)
    then show ?thesis
      using False by (subst digits.simps) simp
  qed
qed

lemma digits_inj: "digits n = digits m \<Longrightarrow> n = m"
  by (metis digits_val_digits)

lemma gs_name_inj: "gs_name i = gs_name j \<Longrightarrow> i = j"
  by (auto simp: gs_name_def fmt_d_def dest: digits_inj)

lemma f64_eq_trans: "f64_eq x a \<Longrightarrow> f64_eq y a \<Longrightarrow> f64_eq x y"
  unfolding f64_eq_def by metis

lemma f64_eq_refl: "\<not> f64_isNaN a \<Longrightarrow> f64_eq a a"
  by (simp add: f64_eq_def)

lemma f64_distinct_snoc:
  "f64_distinct (xs @ [a]) \<longleftrightarrow> f64_distinct xs \<and> (\<forall>x\<in>set xs. \<not> f64_eq x a)"
  by (induction xs) auto

lemma f64map_get_None: "f64map_get m a = None \<longleftrightarrow> (\<forall>kv\<in>set m. \<not> f64_eq (fst kv) a)"
  by (induction m) (auto split: if_splits)

lemma f64map_get_Some:
  "f64map_get m a = Some nm \<Longrightarrow> \<exists>a'. (a', nm) \<in> set m \<and> f64_eq a' a"
  by (induction m) (auto split: if_splits)

lemma f64map_set_miss: "f64map_get m a = None \<Longrightarrow> f64map_set a v m = m @ [(a, v)]"
  by (induction m) (auto split: if_splits)

lemma f64map_get_snoc:
  "f64map_get m a = None \<Longrightarrow> f64_eq a a \<Longrightarrow> f64map_get (m @ [(a, v)]) a = Some v"
  by (induction m) (auto split: if_splits)

lemma dict_set_fresh: "k \<notin> fst ` set d \<Longrightarrow> dict_set k v d = d @ [(k, v)]"
  by (induction d) auto

lemma filter_f64_le1:
  "f64_distinct (map fst m) \<Longrightarrow> (a', nm) \<in> set m \<Longrightarrow> f64_eq a' a \<Longrightarrow>
     filter (\<lambda>kv. f64_eq (fst kv) a) m = [(a', nm)]"
proof (induction m)
  case Nil
  then show ?case by simp
next
  case (Cons p m)
  obtain k v where p: "p = (k, v)" by (cases p)
  from Cons.prems(1) have d: "\<forall>y\<in>set (map fst m). \<not> f64_eq k y" "f64_distinct (map fst m)"
    by (simp_all add: p)
  show ?case
  proof (cases "f64_eq k a")
    case True
    have none: "filter (\<lambda>kv. f64_eq (fst kv) a) m = []"
    proof (rule ccontr)
      assume "filter (\<lambda>kv. f64_eq (fst kv) a) m \<noteq> []"
      then obtain q where q: "q \<in> set m" "f64_eq (fst q) a"
        by (auto simp: filter_empty_conv)
      from f64_eq_trans [OF True q(2)] d(1) q(1) show False by auto
    qed
    have "(a', nm) = (k, v)"
    proof (rule ccontr)
      assume "(a', nm) \<noteq> (k, v)"
      with Cons.prems(2) have "(a', nm) \<in> set m" by (auto simp: p)
      with none Cons.prems(3) show False by (auto simp: filter_empty_conv)
    qed
    with True none show ?thesis by (simp add: p)
  next
    case False
    with Cons.prems(3) have "a' \<noteq> k" by auto
    with Cons.prems(2) have "(a', nm) \<in> set m" by (simp add: p)
    from Cons.IH [OF d(2) this Cons.prems(3)] False show ?thesis
      by (simp add: p)
  qed
qed

lemma ca_level_gs_entry: "ca_level (snd (gs_entry p)) = Some (fst p)"
  by (simp add: gs_entry_def)

lemma opacity_entries_inv:
  assumes "gs_inv s"
  shows "opacity_entries a s = map gs_entry (filter (\<lambda>kv. f64_eq (fst kv) a) (graphicsStates s))"
proof -
  have "filter (\<lambda>kv. case ca_level (snd kv) of Some a' \<Rightarrow> f64_eq a' a | None \<Rightarrow> False) (map gs_entry m)
      = map gs_entry (filter (\<lambda>kv. f64_eq (fst kv) a) m)" for m
    by (induction m) (simp_all add: ca_level_gs_entry)
  with assms show ?thesis
    by (simp add: opacity_entries_def gs_inv_def)
qed

lemma GetOpacityGS_hit:
  "f64map_get (graphicsStates s) a = Some nm \<Longrightarrow> GetOpacityGS a s = (Inr nm, s)"
  by (simp add: GetOpacityGS_def)

lemma GetOpacityGS_miss:
  assumes inv: "gs_inv s" and miss: "f64map_get (graphicsStates s) a = None"
  shows "GetOpacityGS a s =
     (Inr (gs_name (length (graphicsStates s))),
      s\<lparr>graphicsStates := graphicsStates s @ [(a, gs_name (length (graphicsStates s)))],
        resources := dict_set ''ExtGState''
          (VDict (map gs_entry (graphicsStates s @ [(a, gs_name (length (graphicsStates s)))])))
          (resources s)\<rparr>)"
proof -
  let ?gs = "graphicsStates s"
  let ?nm = "gs_name (length ?gs)"
  from inv have e: "dict_get (resources s) ''ExtGState'' = Some (VDict (map gs_entry ?gs))"
    and names: "map snd ?gs = map gs_name [0..<length ?gs]"
    by (simp_all add: gs_inv_def)
  have "map fst (map gs_entry ?gs) = map snd ?gs"
    by (simp add: gs_entry_def)
  then have "fst ` set (map gs_entry ?gs) = set (map snd ?gs)"
    by (metis set_map)
  also have "\<dots> = gs_name ` {0..<length ?gs}"
    unfolding names by simp
  finally have "?nm \<notin> fst ` set (map gs_entry ?gs)"
    by (auto dest: gs_name_inj)
  then have fresh: "dict_set ?nm (VDict [(''ca'', VFloat a)]) (map gs_entry ?gs)
      = map gs_entry (?gs @ [(a, ?nm)])"
    by (simp add: dict_set_fresh gs_entry_def)
  show ?thesis
    using miss e fresh
    by (simp add: GetOpacityGS_def Let_def f64map_set_miss gs_name_def)
qed

lemma gs_inv_GetOpacityGS:
  assumes "gs_inv s"
  shows "gs_inv (snd (GetOpacityGS a s))"
proof (cases "f64map_get (graphicsStates s) a")
  case None
  let ?gs = "graphicsStates s"
  from assms have names: "map snd ?gs = map gs_name [0..<length ?gs]"
    and d: "f64_distinct (map fst ?gs)"
    by (simp_all add: gs_inv_def)
  from None have "\<forall>x\<in>set (map fst ?gs). \<not> f64_eq x a"
    by (auto simp: f64map_get_None)
  with d names show ?thesis
    unfolding GetOpacityGS_miss [OF assms None]
    by (simp add: gs_inv_def dict_get_dict_set f64_distinct_snoc)
next
  case (Some nm)
  with assms show ?thesis by (simp add: GetOpacityGS_hit)
qed

lemma gs_inv_fields:
  "resources t = resources s \<Longrightarrow> graphicsStates t = graphicsStates s \<Longrightarrow> gs_inv s \<Longrightarrow> gs_inv t"
  by (simp add: gs_inv_def)

lemma GetFont_gs:
  "graphicsStates (snd (GetFont L f s)) = graphicsStates s \<and>
   dict_get (resources (snd (GetFont L f s))) ''ExtGState'' = dict_get (resources s) ''ExtGState''"
  by (simp add: GetFont_def Let_def split_beta dict_get_dict_set split: option.split val.split)

lemma gs_inv_GetFont: "gs_inv s \<Longrightarrow> gs_inv (snd (GetFont L f s))"
  using GetFont_gs [of L f s] by (simp add: gs_inv_def)

lemma gs_inv_step: "gs_inv s \<Longrightarrow> gs_inv (step L x s)"
  by (cases x) (simp_all add: gs_inv_GetOpacityGS gs_inv_GetFont gs_inv_fields)

lemma gs_inv_run: "gs_inv s \<Longrightarrow> gs_inv (run L ops s)"
  unfolding run_def by (induction ops arbitrary: s) (simp_all add: gs_inv_step)

lemma gs_inv_New: "gs_inv (NewPDFWriter iter k wd ht)"
  by (simp add: NewPDFWriter_def write_writeBytes gs_inv_def)

lemma GetOpacityGS_twice:
  assumes inv: "gs_inv s" and a: "\<not> f64_isNaN a"
  shows "\<exists>nm a'. fst (GetOpacityGS a s) = Inr nm \<and>
           GetOpacityGS a (snd (GetOpacityGS a s)) = (Inr nm, snd (GetOpacityGS a s)) \<and>
           f64_eq a' a \<and>
           opacity_entries a (snd (GetOpacityGS a s)) = [(nm, VDict [(''ca'', VFloat a')])]"
proof -
  let ?s1 = "snd (GetOpacityGS a s)"
  have inv1: "gs_inv ?s1" using inv by (rule gs_inv_GetOpacityGS)
  have "\<exists>nm. fst (GetOpacityGS a s) = Inr nm \<and> f64map_get (graphicsStates ?s1) a = Some nm"
  proof (cases "f64map_get (graphicsStates s) a")
    case None
    show ?thesis
      unfolding GetOpacityGS_miss [OF inv None]
      using None a by (simp add: f64map_get_snoc f64_eq_refl)
  next
    case (Some nm)
    then show ?thesis by (simp add: GetOpacityGS_hit)
  qed
  then obtain nm where nm: "fst (GetOpacityGS a s) = Inr nm"
    and hit: "f64map_get (graphicsStates ?s1) a = Some nm" by blast
  from f64map_get_Some [OF hit] obtain a' where a': "(a', nm) \<in> set (graphicsStates ?s1)" "f64_eq a' a"
    by blast
  from inv1 have "f64_distinct (map fst (graphicsStates ?s1))" by (simp add: gs_inv_def)
  from filter_f64_le1 [OF this a'] have "opacity_entries a ?s1 = [gs_entry (a', nm)]"
    by (simp add: opacity_entries_inv [OF inv1])
  then have "opacity_entries a ?s1 = [(nm, VDict [(''ca'', VFloat a')])]"
    by (simp add: gs_entry_def)
  with nm GetOpacityGS_hit [OF hit] a'(2) show ?thesis by blast
qed


text \<open>
  C7, for the levels that equal themselves. In every state a run of the public
  operations reaches from a new writer, and for every level \<open>a\<close> that is not a
  NaN: \<^verbatim>\<open>GetOpacityGS a\<close> returns a name, a second call returns the same name
  and changes nothing, the \<^verbatim>\<open>ExtGState\<close> sub-dictionary then holds exactly one
  entry whose level equals \<open>a\<close>, under that name, and neither call touches
  the sink, the position, the error flag or the offset table.
\<close>

theorem C7_opacity_cache:
  "\<not> f64_isNaN a \<Longrightarrow>
   (let s = run L ops (NewPDFWriter iter k wd ht);
        r1 = GetOpacityGS a s;
        r2 = GetOpacityGS a (snd r1)
    in (\<exists>nm a'. fst r1 = Inr nm \<and> r2 = (Inr nm, snd r1) \<and> f64_eq a' a \<and>
           opacity_entries a (snd r2) = [(nm, VDict [(''ca'', VFloat a')])]) \<and>
       sink_view (snd r2) = sink_view s)"
proof -
  assume a: "\<not> f64_isNaN a"
  let ?s = "run L ops (NewPDFWriter iter k wd ht)"
  have inv: "gs_inv ?s" by (rule gs_inv_run [OF gs_inv_New])
  from GetOpacityGS_twice [OF inv a] obtain nm a' where
    1: "fst (GetOpacityGS a ?s) = Inr nm"
    and 2: "GetOpacityGS a (snd (GetOpacityGS a ?s)) = (Inr nm, snd (GetOpacityGS a ?s))"
    and 3: "f64_eq a' a"
    and 4: "opacity_entries a (snd (GetOpacityGS a ?s)) = [(nm, VDict [(''ca'', VFloat a')])]"
    by blast
  have 5: "sink_view (snd (GetOpacityGS a (snd (GetOpacityGS a ?s)))) = sink_view ?s"
    by (simp add: GetOpacityGS_view)
  from 1 2 3 4 have "\<exists>nm a'. fst (GetOpacityGS a ?s) = Inr nm \<and>
      GetOpacityGS a (snd (GetOpacityGS a ?s)) = (Inr nm, snd (GetOpacityGS a ?s)) \<and> f64_eq a' a \<and>
      opacity_entries a (snd (GetOpacityGS a (snd (GetOpacityGS a ?s)))) = [(nm, VDict [(''ca'', VFloat a')])]"
    by auto
  with 5 show ?thesis
    unfolding Let_def by blast
qed

theorem C7_opacity_cache_witness:
  "\<not> f64_isNaN f64_half \<and>
   (\<exists>nm a'. fst (GetOpacityGS f64_half new_writer) = Inr nm \<and>
       GetOpacityGS f64_half (snd (GetOpacityGS f64_half new_writer))
         = (Inr nm, snd (GetOpacityGS f64_half new_writer)) \<and>
       f64_eq a' f64_half \<and>
       opacity_entries f64_half (snd (GetOpacityGS f64_half (snd (GetOpacityGS f64_half new_writer))))
         = [(nm, VDict [(''ca'', VFloat a')])]) \<and>
   fst (GetOpacityGS f64_half new_writer) = Inr ''GS0''"
proof -
  have n: "\<not> f64_isNaN f64_half" by code_simp
  have g: "fst (GetOpacityGS f64_half new_writer) = Inr ''GS0''" by code_simp
  have r: "run example_Lib [] (NewPDFWriter [] (empty_sink []) 100 200) = new_writer"
    by (simp add: run_def new_writer_def)
  from C7_opacity_cache [OF n, of example_Lib "[]" "[]" "empty_sink []" 100 200] n g
  show ?thesis
    unfolding Let_def r by blast
qed

theorem C7_opacity_cache_counterexample:
  "f64_isNaN f64_NaN \<and>
   GetOpacityGS f64_NaN new_writer =
     (Inr ''GS0'',
      new_writer
        \<lparr>resources := [(''ExtGState'', VDict [(''GS0'', VDict [(''ca'', VFloat f64_NaN)])]),
                       (''Font'', VDict [])],
         graphicsStates := [(f64_NaN, ''GS0'')]\<rparr>) \<and>
   GetOpacityGS f64_NaN (snd (GetOpacityGS f64_NaN new_writer)) =
     (Inr ''GS1'',
      new_writer
        \<lparr>resources := [(''ExtGState'', VDict [(''GS0'', VDict [(''ca'', VFloat f64_NaN)]),
                                                (''GS1'', VDict [(''ca'', VFloat f64_NaN)])]),
                       (''Font'', VDict [])],
         graphicsStates := [(f64_NaN, ''GS0''), (f64_NaN, ''GS1'')]\<rparr>)"
  by code_simp

section \<open>The order of dictionary entries\<close>

lemma pick_order_onto: "mset ord = mset xs \<Longrightarrow> \<exists>r. pick_order r xs = ord"
proof (induction ord arbitrary: xs)
  case Nil
  then show ?case by (simp add: pick_order.simps)
next
  case (Cons x ord)
  then have "x \<in> set xs"
    by (metis list.set_intros(1) set_mset_mset)
  then obtain i where i: "i < length xs" "xs ! i = x"
    by (auto simp: in_set_conv_nth)
  let ?xs' = "take i xs @ drop (Suc i) xs"
  have "mset xs = add_mset x (mset ?xs')"
    using id_take_nth_drop [OF i(1)] i(2) by (metis mset.simps(2) mset_append union_mset_add_mset_right)
  with Cons.prems have "mset ord = mset ?xs'" by simp
  from Cons.IH [OF this] obtain r' where r': "pick_order r' ?xs' = ord" by blast
  let ?r = "i + length xs * r'"
  from i(1) have m: "?r mod length xs = i"
    by simp
  from i(1) have d: "?r div length xs = r'"
    by (auto simp: div_add1_eq)
  from i(1) have ne: "xs \<noteq> []" by auto
  have "pick_order ?r xs = x # ord"
    using ne by (subst pick_order.simps) (simp only: m d i(2) r' if_False)
  then show ?case by blast
qed

lemma pick_order_short: "length xs \<le> 1 \<Longrightarrow> pick_order r xs = xs"
proof (cases xs)
  case Nil
  then show ?thesis by (simp add: pick_order.simps)
next
  case (Cons x ys)
  assume "length xs \<le> 1"
  with Cons have "ys = []" by simp
  with Cons show ?thesis
    by (simp add: pick_order.simps [of r "[x]"] pick_order.simps [of _ "[]"])
qed

lemma range_order_short: "length xs \<le> 1 \<Longrightarrow> range_order s xs = xs"
  by (simp add: range_order_def pick_order_short split: list.split)

text \<open>
  C8, as the code has it. Rendering a dictionary writes the opening delimiter,
  then every entry exactly once (the entries written are a permutation of the
  dictionary's entries), then the closing delimiter. The permutation is the
  one the map iteration picks: a dictionary with at most one entry has only
  one, and for a longer dictionary every permutation is the order of some pick.
\<close>

theorem C8_dictionary_order:
  "(\<exists>ord. mset ord = mset d \<and> (length d \<le> 1 \<longrightarrow> ord = d) \<and>
      writeVal L (VDict d) s =
        write ''>>'' (fold (write_entry L) ord (range_next (write ''<< '' s)))) \<and>
   (\<forall>ord. mset ord = mset d \<longrightarrow>
      (\<exists>r. writeVal L (VDict d) (s\<lparr>mapiter := r # rs\<rparr>) =
        write ''>>'' (fold (write_entry L) ord (range_next (write ''<< '' (s\<lparr>mapiter := r # rs\<rparr>))))))"
proof (intro conjI allI impI)
  let ?ord = "range_order (write ''<< '' s) d"
  have "writeVal L (VDict d) s =
        write ''>>'' (fold (write_entry L) ?ord (range_next (write ''<< '' s)))"
    by (simp add: write_entry_def [abs_def])
  moreover have "mset ?ord = mset d" by (rule mset_range_order)
  moreover have "length d \<le> 1 \<longrightarrow> ?ord = d" by (simp add: range_order_short)
  ultimately show "\<exists>ord. mset ord = mset d \<and> (length d \<le> 1 \<longrightarrow> ord = d) \<and>
      writeVal L (VDict d) s =
        write ''>>'' (fold (write_entry L) ord (range_next (write ''<< '' s)))"
    by blast
next
  fix ord assume "mset ord = mset d"
  then obtain r where r: "pick_order r d = ord"
    using pick_order_onto by blast
  let ?s = "s\<lparr>mapiter := r # rs\<rparr>"
  have "mapiter (write ''<< '' ?s) = r # rs"
    by (simp add: write_writeBytes)
  then have "range_order (write ''<< '' ?s) d = ord"
    by (simp add: range_order_def r)
  then have "writeVal L (VDict d) ?s =
        write ''>>'' (fold (write_entry L) ord (range_next (write ''<< '' ?s)))"
    by (simp add: write_entry_def [abs_def])
  then show "\<exists>r. writeVal L (VDict d) (s\<lparr>mapiter := r # rs\<rparr>) =
        write ''>>'' (fold (write_entry L) ord (range_next (write ''<< '' (s\<lparr>mapiter := r # rs\<rparr>))))"
    by blast
qed

theorem C8_dictionary_order_witness:
  "length [(''A'', VInt 1)] \<le> 1 \<and>
   writeVal example_Lib (VDict [(''A'', VInt 1)]) two_picks_writer =
     write ''>>'' (fold (write_entry example_Lib) [(''A'', VInt 1)]
                     (range_next (write ''<< '' two_picks_writer))) \<and>
   mset [(''B'', VInt 2), (''A'', VInt 1)] = mset two_entries \<and>
   (\<exists>r. writeVal example_Lib (VDict two_entries) (new_writer\<lparr>mapiter := r # []\<rparr>) =
      write ''>>'' (fold (write_entry example_Lib) [(''B'', VInt 2), (''A'', VInt 1)]
                      (range_next (write ''<< '' (new_writer\<lparr>mapiter := r # []\<rparr>)))))"
proof -
  have l: "length [(''A'', VInt 1)] \<le> (1::nat)" by simp
  have m: "mset [(''B'', VInt 2), (''A'', VInt 1)] = mset two_entries"
    by (simp add: two_entries_def)
  note a = C8_dictionary_order [of "[(''A'', VInt 1)]" example_Lib two_picks_writer "[]", THEN conjunct1]
  note b = C8_dictionary_order [of two_entries example_Lib new_writer "[]", THEN conjunct2]
  from a l have "writeVal example_Lib (VDict [(''A'', VInt 1)]) two_picks_writer =
     write ''>>'' (fold (write_entry example_Lib) [(''A'', VInt 1)]
                     (range_next (write ''<< '' two_picks_writer)))"
    by auto
  moreover from b m have "\<exists>r. writeVal example_Lib (VDict two_entries) (new_writer\<lparr>mapiter := r # []\<rparr>) =
      write ''>>'' (fold (write_entry example_Lib) [(''B'', VInt 2), (''A'', VInt 1)]
                      (range_next (write ''<< '' (new_writer\<lparr>mapiter := r # []\<rparr>))))"
    by blast
  ultimately show ?thesis using l m by blast
qed

theorem C8_dictionary_order_counterexample:
  "out (w two_picks_writer) = ''%PDF-1.7'' @ NL \<and>
   out (w (writeVal example_Lib (VDict two_entries) two_picks_writer))
     = ''%PDF-1.7'' @ NL @ ''<< /A 1 /B 2 >>'' \<and>
   out (w (writeVal example_Lib (VDict two_entries)
             (writeVal example_Lib (VDict two_entries) two_picks_writer)))
     = ''%PDF-1.7'' @ NL @ ''<< /A 1 /B 2 >>'' @ ''<< /B 2 /A 1 >>''"
  by code_simp

section \<open>Closing the file\<close>

lemma writeBytes_ok:
  assumes "err (writeBytes b s) = None"
  shows "err s = None" and "out (w (writeBytes b s)) = out (w s) @ b"
    and "pos (writeBytes b s) = pos s + int (length b)"
  using writeBytes_out [of b s] assms by auto

lemma write_eq: "write = writeBytes"
  by (rule ext)+ (simp add: write_writeBytes)

lemma writeVal_err:
  assumes "err (writeVal L v s) = None"
  shows "err s = None"
proof (rule ccontr)
  assume "err s \<noteq> None"
  then have "err (writeVal L v s) = err s" "err s \<noteq> None"
    using writeVal_sticky [of s L v] by simp_all
  with assms show False by simp
qed

lemma writeVal_appends: "\<exists>x. out (w (writeVal L v s)) = out (w s) @ x"
proof (rule writeVal_preserves [where P = "\<lambda>t. \<exists>x. out (w t) = out (w s) @ x"])
  fix b and t :: PDFWriter assume "\<exists>x. out (w t) = out (w s) @ x"
  then obtain x where "out (w t) = out (w s) @ x" by blast
  moreover obtain y where "out (w (writeBytes b t)) = out (w t) @ y"
    using writeBytes_out [of b t] by blast
  ultimately show "\<exists>x. out (w (writeBytes b t)) = out (w s) @ x" by simp
qed simp_all

lemma fold_write_ok:
  assumes "err (fold (\<lambda>x. write (g x)) xs s) = None"
  shows "err s = None \<and> out (w (fold (\<lambda>x. write (g x)) xs s)) = out (w s) @ concat (map g xs)"
  using assms
proof (induction xs arbitrary: s)
  case Nil
  then show ?case by simp
next
  case (Cons x xs)
  from Cons.IH [of "write (g x) s"] Cons.prems
  have 1: "err (write (g x) s) = None"
    and 2: "out (w (fold (\<lambda>x. write (g x)) xs (write (g x) s))) = out (w (write (g x) s)) @ concat (map g xs)"
    by simp_all
  from writeBytes_ok [OF 1 [unfolded write_eq]] 2 show ?case
    unfolding write_eq by simp
qed

lemma WriteObject_ok:
  assumes "err (snd (WriteObject L v s)) = None"
  shows "err s = None"
    and "\<exists>body. out (w (snd (WriteObject L v s))) =
           out (w s) @ obj_header (Suc (length (objOffsets s))) @ body @ NL @ ''endobj'' @ NL"
proof -
  let ?s1 = "s\<lparr>objOffsets := objOffsets s @ [pos s]\<rparr>"
  let ?s2 = "writeBytes (obj_header (Suc (length (objOffsets s)))) ?s1"
  let ?s3 = "writeVal L v ?s2"
  let ?s4 = "writeBytes (NL @ ''endobj'' @ NL) ?s3"
  from assms have e4: "err ?s4 = None" by (simp add: WriteObject_unfold)
  note o4 = writeBytes_ok(2) [OF e4]
  from writeBytes_ok(1) [OF e4] have e3: "err ?s3 = None" .
  then have e2: "err ?s2 = None" by (rule writeVal_err)
  note o2 = writeBytes_ok(2) [OF e2]
  from writeBytes_ok(1) [OF e2] show "err s = None" by simp
  obtain body where o3: "out (w ?s3) = out (w ?s2) @ body"
    using writeVal_appends [of L v ?s2] by blast
  have "out (w ?s4) = out (w s) @ obj_header (Suc (length (objOffsets s))) @ body @ NL @ ''endobj'' @ NL"
    unfolding o4 o3 o2 by simp
  then show "\<exists>body. out (w (snd (WriteObject L v s))) =
           out (w s) @ obj_header (Suc (length (objOffsets s))) @ body @ NL @ ''endobj'' @ NL"
    unfolding WriteObject_unfold snd_conv by blast
qed

lemma Close_xref_ok:
  assumes "err (Close_xref L r s) = None"
  shows "err s = None"
    and "\<exists>tr. out (w (Close_xref L r s)) =
           out (w s) @ xref_section (objOffsets s) @ ''trailer'' @ NL @ tr @ NL @
           ''starxref'' @ NL @ fmt_d (pos s) @ NL @ ''%%EOF''"
proof -
  let ?h = "''xref'' @ NL @ ''0 '' @ fmt_d (int (length (objOffsets s)) + 1) @ NL @
            ''0000000000 65535 f'' @ NL"
  let ?s1 = "writeBytes ?h s"
  let ?s2 = "fold (\<lambda>objOffset. write (xref_entry objOffset)) (objOffsets ?s1) ?s1"
  let ?s3 = "writeBytes (''trailer'' @ NL) ?s2"
  let ?s4 = "writeVal L (Close_trailer r ?s3) ?s3"
  let ?f = "NL @ ''starxref'' @ NL @ fmt_d (pos s) @ NL @ ''%%EOF''"
  let ?s5 = "writeBytes ?f ?s4"
  have eq: "Close_xref L r s = ?s5"
    by (simp add: Close_xref_def Let_def write_writeBytes)
  from assms have e5: "err ?s5 = None" by (simp only: eq)
  note o5 = writeBytes_ok(2) [OF e5]
  from writeBytes_ok(1) [OF e5] have e4: "err ?s4 = None" .
  then have e3: "err ?s3 = None" by (rule writeVal_err)
  note o3 = writeBytes_ok(2) [OF e3]
  from writeBytes_ok(1) [OF e3] have e2: "err ?s2 = None" .
  from fold_write_ok [OF e2] have e1: "err ?s1 = None"
    and o2: "out (w ?s2) = out (w ?s1) @ concat (map xref_entry (objOffsets ?s1))"
    by simp_all
  note o1 = writeBytes_ok(2) [OF e1]
  from writeBytes_ok(1) [OF e1] show "err s = None" .
  obtain tr where o4: "out (w ?s4) = out (w ?s3) @ tr"
    using writeVal_appends [of L "Close_trailer r ?s3" ?s3] by blast
  have "out (w ?s5) = out (w s) @ xref_section (objOffsets s) @ ''trailer'' @ NL @ tr @ ?f"
    unfolding o5 o4 o3 o2 o1 by (simp add: xref_section_def)
  then show "\<exists>tr. out (w (Close_xref L r s)) =
           out (w s) @ xref_section (objOffsets s) @ ''trailer'' @ NL @ tr @ NL @
           ''starxref'' @ NL @ fmt_d (pos s) @ NL @ ''%%EOF''"
    unfolding eq by auto
qed





lemma length_digits_pos: "0 < length (digits n)"
  by (subst digits.simps) simp




lemma Close_unfold:
  "Close L s =
     (let r1 = WriteObject L (Close_page s) s;
          r2 = WriteObject L (Close_pages (fst r1)) (snd r1);
          r3 = WriteObject L (Close_catalog (fst r2)) (snd r2)
      in (err (Close_xref L (fst r3) (snd r3)), Close_xref L (fst r3) (snd r3)))"
  by (simp add: Close_def Let_def split_beta)

text \<open>
  The three \<^verbatim>\<open>WriteObject\<close> calls of \<^verbatim>\<open>Close\<close>, the references they return and
  the entries of the dictionaries they are given.
\<close>

lemma Close_chain_refs:
  "let n = int (length (objOffsets s));
       r1 = WriteObject L (Close_page s) s;
       r2 = WriteObject L (Close_pages (fst r1)) (snd r1);
       r3 = WriteObject L (Close_catalog (fst r2)) (snd r2)
   in snd (Close L s) = Close_xref L (fst r3) (snd r3) \<and>
      fst r1 = n + 1 \<and> fst r2 = n + 2 \<and> fst r3 = n + 3 \<and>
      dict_get (entries (Close_page s)) ''Type'' = Some (VName ''Page'') \<and>
      dict_get (entries (Close_page s)) ''Parent'' = Some (VRef (n + 2)) \<and>
      dict_get (entries (Close_page s)) ''Parent'' = Some (VRef (fst r2)) \<and>
      dict_get (entries (Close_pages (fst r1))) ''Type'' = Some (VName ''Pages'') \<and>
      dict_get (entries (Close_pages (fst r1))) ''Kids'' = Some (VArray [VRef (fst r1)]) \<and>
      dict_get (entries (Close_catalog (fst r2))) ''Type'' = Some (VName ''Catalog'') \<and>
      dict_get (entries (Close_catalog (fst r2))) ''Pages'' = Some (VRef (fst r2)) \<and>
      Close_trailer (fst r3) (snd r3) = VDict [(''Root'', VRef (fst r3)), (''Size'', VInt (n + 3))] \<and>
      (n = 0 \<longrightarrow> dict_get (entries (Close_trailer (fst r3) (snd r3))) ''Size'' = Some (VInt 3)) \<and>
      (fst (Close L s) = None \<longrightarrow>
         (\<exists>page pages catalog rest.
            out (w (snd (Close L s))) =
              out (w s) @
              obj_header (nat n + 1) @ page @ NL @ ''endobj'' @ NL @
              obj_header (nat n + 2) @ pages @ NL @ ''endobj'' @ NL @
              obj_header (nat n + 3) @ catalog @ NL @ ''endobj'' @ NL @ rest))"
proof -
  let ?n = "int (length (objOffsets s))"
  let ?r1 = "WriteObject L (Close_page s) s"
  let ?r2 = "WriteObject L (Close_pages (fst ?r1)) (snd ?r1)"
  let ?r3 = "WriteObject L (Close_catalog (fst ?r2)) (snd ?r2)"
  have len: "length (objOffsets (snd (WriteObject L v t))) = length (objOffsets t) + 1" for v t
    by (simp add: objOffsets_WriteObject)
  have f1: "fst ?r1 = ?n + 1" by (simp add: fst_WriteObject)
  have l1: "length (objOffsets (snd ?r1)) = length (objOffsets s) + 1"
    by (simp add: len)
  have f2: "fst ?r2 = ?n + 2" by (simp add: fst_WriteObject len)
  have l2: "length (objOffsets (snd ?r2)) = length (objOffsets s) + 2"
    by (simp add: len)
  have f3: "fst ?r3 = ?n + 3" by (simp add: fst_WriteObject len)
  have l3: "length (objOffsets (snd ?r3)) = length (objOffsets s) + 3"
    by (simp add: len)
  have c: "snd (Close L s) = Close_xref L (fst ?r3) (snd ?r3)"
    by (simp add: Close_unfold Let_def)
  have tr: "Close_trailer (fst ?r3) (snd ?r3) = VDict [(''Root'', VRef (fst ?r3)), (''Size'', VInt (?n + 3))]"
    by (simp add: Close_trailer_def l3)
  have bytes: "\<exists>page pages catalog rest.
            out (w (snd (Close L s))) =
              out (w s) @
              obj_header (nat ?n + 1) @ page @ NL @ ''endobj'' @ NL @
              obj_header (nat ?n + 2) @ pages @ NL @ ''endobj'' @ NL @
              obj_header (nat ?n + 3) @ catalog @ NL @ ''endobj'' @ NL @ rest"
    if ok: "fst (Close L s) = None"
  proof -
    from ok have e: "err (Close_xref L (fst ?r3) (snd ?r3)) = None"
      by (simp add: fst_Close c)
    from Close_xref_ok [OF e] obtain rest where
      e3: "err (snd ?r3) = None" and o: "out (w (Close_xref L (fst ?r3) (snd ?r3))) = out (w (snd ?r3)) @ rest"
      by auto
    from WriteObject_ok [OF e3] obtain catalog where
      e2: "err (snd ?r2) = None"
      and o3: "out (w (snd ?r3)) = out (w (snd ?r2)) @
          obj_header (Suc (length (objOffsets (snd ?r2)))) @ catalog @ NL @ ''endobj'' @ NL"
      by auto
    from WriteObject_ok [OF e2] obtain pages where
      e1: "err (snd ?r1) = None"
      and o2: "out (w (snd ?r2)) = out (w (snd ?r1)) @
          obj_header (Suc (length (objOffsets (snd ?r1)))) @ pages @ NL @ ''endobj'' @ NL"
      by auto
    from WriteObject_ok [OF e1] obtain page where
      o1: "out (w (snd ?r1)) = out (w s) @
          obj_header (Suc (length (objOffsets s))) @ page @ NL @ ''endobj'' @ NL"
      by auto
    have "out (w (snd (Close L s))) =
              out (w s) @
              obj_header (nat ?n + 1) @ page @ NL @ ''endobj'' @ NL @
              obj_header (nat ?n + 2) @ pages @ NL @ ''endobj'' @ NL @
              obj_header (nat ?n + 3) @ catalog @ NL @ ''endobj'' @ NL @ rest"
      unfolding c o o3 o2 o1 l1 l2 by (simp add: numeral_3_eq_3 numeral_2_eq_2)
    then show ?thesis by blast
  qed
  show ?thesis
    unfolding Let_def
  proof (intro conjI impI)
    show "snd (Close L s) = Close_xref L (fst ?r3) (snd ?r3)" by (rule c)
    show "fst ?r1 = ?n + 1" by (rule f1)
    show "fst ?r2 = ?n + 2" by (rule f2)
    show "fst ?r3 = ?n + 3" by (rule f3)
    show "dict_get (entries (Close_page s)) ''Type'' = Some (VName ''Page'')"
      by (simp add: Close_page_def)
    show "dict_get (entries (Close_page s)) ''Parent'' = Some (VRef (?n + 2))"
      by (simp add: Close_page_def)
    then show "dict_get (entries (Close_page s)) ''Parent'' = Some (VRef (fst ?r2))"
      unfolding f2 .
    show "dict_get (entries (Close_pages (fst ?r1))) ''Type'' = Some (VName ''Pages'')"
      by (simp add: Close_pages_def)
    show "dict_get (entries (Close_pages (fst ?r1))) ''Kids'' = Some (VArray [VRef (fst ?r1)])"
      by (simp add: Close_pages_def)
    show "dict_get (entries (Close_catalog (fst ?r2))) ''Type'' = Some (VName ''Catalog'')"
      by (simp add: Close_catalog_def)
    show "dict_get (entries (Close_catalog (fst ?r2))) ''Pages'' = Some (VRef (fst ?r2))"
      by (simp add: Close_catalog_def)
    show "Close_trailer (fst ?r3) (snd ?r3) = VDict [(''Root'', VRef (fst ?r3)), (''Size'', VInt (?n + 3))]"
      by (rule tr)
    show "dict_get (entries (Close_trailer (fst ?r3) (snd ?r3))) ''Size'' = Some (VInt 3)" if "?n = 0"
      unfolding tr using that by simp
    show "\<exists>page pages catalog rest.
            out (w (snd (Close L s))) =
              out (w s) @
              obj_header (nat ?n + 1) @ page @ NL @ ''endobj'' @ NL @
              obj_header (nat ?n + 2) @ pages @ NL @ ''endobj'' @ NL @
              obj_header (nat ?n + 3) @ catalog @ NL @ ''endobj'' @ NL @ rest"
      if "fst (Close L s) = None"
      using that by (rule bytes)
  qed
qed



section \<open>The serializer writes the serialized form\<close>

lemma set_map_order: "set (map_order m xs) = set xs"
  by (simp add: map_order_def set_pick_order split: list.split)

lemma weight_map_order_elem:
  "(k, v) \<in> set (map_order m d) \<Longrightarrow> weight v < (\<Sum>kv\<leftarrow>d. Suc (weight (snd kv)))"
  by (simp add: set_map_order weight_dict_elem)

lemma weight_spec_stream_dict:
  "(\<Sum>kv\<leftarrow>with_Length b (with_Filter fs (case dict of None \<Rightarrow> [] | Some d \<Rightarrow> d)). Suc (weight (snd kv)))
     < 5 + (length fs + (case dict of None \<Rightarrow> 0 | Some d \<Rightarrow> \<Sum>kv\<leftarrow>d. Suc (weight (snd kv))))"
  using weight_stream_dict [of dict fs b] by (simp only: stream_dict_spec)

termination render
  apply (relation "measure (\<lambda>(L, v, m). weight v)")
  apply (auto simp: weight_spec_stream_dict dest: weight_enumerate_elem weight_map_order_elem)
  done


lemma write_ok:
  assumes "err (write b s) = None"
  shows "err s = None" and "out (w (write b s)) = out (w s) @ b"
    and "mapiter (write b s) = mapiter s" and "pos (write b s) = pos s + int (length b)"
  using writeBytes_ok [of b s] assms by (simp_all add: write_writeBytes)

lemma fold_err_back:
  "(\<And>x s. x \<in> set xs \<Longrightarrow> err (f x s) = None \<Longrightarrow> err s = None) \<Longrightarrow>
     err (fold f xs s) = None \<Longrightarrow> err s = None"
  by (induction xs arbitrary: s) auto

lemma fold_sim:
  "(\<And>x s. x \<in> set xs \<Longrightarrow> err (f x s) = None \<Longrightarrow> err s = None) \<Longrightarrow>
   (\<And>x s acc. x \<in> set xs \<Longrightarrow> err (f x s) = None \<Longrightarrow> R s acc \<Longrightarrow> R (f x s) (g x acc)) \<Longrightarrow>
   err (fold f xs s) = None \<Longrightarrow> R s acc \<Longrightarrow> R (fold f xs s) (fold g xs acc)"
proof (induction xs arbitrary: s acc)
  case Nil
  then show ?case by simp
next
  case (Cons x xs)
  have bk: "\<And>y t. y \<in> set xs \<Longrightarrow> err (f y t) = None \<Longrightarrow> err t = None"
    using Cons.prems(1) by auto
  have step: "\<And>y t a. y \<in> set xs \<Longrightarrow> err (f y t) = None \<Longrightarrow> R t a \<Longrightarrow> R (f y t) (g y a)"
    using Cons.prems(2) by auto
  from Cons.prems(3) have fin: "err (fold f xs (f x s)) = None" by simp
  from fold_err_back [of xs f "f x s", OF bk fin] have e: "err (f x s) = None" .
  from Cons.prems(2) [of x s acc] e Cons.prems(4) have "R (f x s) (g x acc)" by simp
  from Cons.IH [OF bk step fin this] show ?case by simp
qed

lemma mapiter_writeBytes_range [simp]:
  "mapiter (write b s) = mapiter s" "mapiter (range_next s) = tl (mapiter s)"
  by (simp_all add: write_writeBytes range_next_def)

lemma range_order_map_order: "range_order s xs = map_order (mapiter s) xs"
  by (simp add: range_order_def map_order_def)

lemma writeVal_render:
  "err (writeVal L v s) = None \<Longrightarrow>
     out (w (writeVal L v s)) = out (w s) @ fst (render L v (mapiter s)) \<and>
     mapiter (writeVal L v s) = snd (render L v (mapiter s))"
proof (induction L v s rule: writeVal.induct)
  case (6 L v s)
  let ?F = "\<lambda>jval s'. writeVal L (snd jval) (if fst jval \<noteq> 0 then write '' '' s' else s')"
  let ?G = "\<lambda>jv acc.
      (fst acc @ (if fst jv \<noteq> 0 then '' '' else []) @ fst (render L (snd jv) (snd acc)),
       snd (render L (snd jv) (snd acc)))"
  let ?R = "\<lambda>t acc. out (w t) = out (w s) @ fst acc \<and> mapiter t = snd acc"
  let ?s1 = "write ''['' s"
  let ?t = "fold ?F (enumerate 0 v) ?s1"
  from "6.prems" have fin: "err (write '']'' ?t) = None" by simp
  note ft = write_ok [OF fin]
  have bk: "err t = None" if "err (?F x t) = None" for x t
  proof -
    from that have "err (if fst x \<noteq> 0 then write '' '' t else t) = None"
      by (rule writeVal_err)
    then show ?thesis by (cases "fst x \<noteq> 0") (auto dest: write_ok(1))
  qed
  have step: "?R (?F x t) (?G x acc)"
    if x: "x \<in> set (enumerate 0 v)" and e: "err (?F x t) = None" and r: "?R t acc" for x t acc
  proof -
    let ?t' = "if fst x \<noteq> 0 then write '' '' t else t"
    from e have e': "err ?t' = None" by (rule writeVal_err)
    have o': "out (w ?t') = out (w t) @ (if fst x \<noteq> 0 then '' '' else [])"
      using e' by (cases "fst x \<noteq> 0") (auto dest: write_ok(2))
    have m': "mapiter ?t' = snd acc" using r by simp
    from "6.IH" [OF x, of t] e
    have "out (w (?F x t)) = out (w ?t') @ fst (render L (snd x) (mapiter ?t'))"
      and "mapiter (?F x t) = snd (render L (snd x) (mapiter ?t'))"
      by simp_all
    then show ?thesis
      unfolding m' o' using r by simp
  qed
  have e1: "err ?s1 = None"
    using fold_err_back [of "enumerate 0 v" ?F ?s1] bk ft(1) by blast
  have init: "?R ?s1 (''['', mapiter s)"
    using write_ok [OF e1] by simp
  have "?R ?t (fold ?G (enumerate 0 v) (''['', mapiter s))"
    by (rule fold_sim [where R = ?R, OF bk step ft(1) init])
  then show ?case
    using ft(2,3) by (simp add: Let_def)
next
  case (7 L v s)
  let ?F = "\<lambda>kv s'. write '' '' (writeVal L (snd kv) (write '' '' (writeVal L (VName (fst kv)) s')))"
  let ?G = "\<lambda>kv acc.
      (fst acc @ ''/'' @ fst kv @ '' '' @ fst (render L (snd kv) (snd acc)) @ '' '',
       snd (render L (snd kv) (snd acc)))"
  let ?R = "\<lambda>t acc. out (w t) = out (w s) @ fst acc \<and> mapiter t = snd acc"
  let ?s1 = "write ''<< '' s"
  let ?ord = "range_order ?s1 v"
  let ?t = "fold ?F ?ord (range_next ?s1)"
  from "7.prems" have fin: "err (write ''>>'' ?t) = None" by simp
  note ft = write_ok [OF fin]
  have bk: "err t = None" if "err (?F x t) = None" for x t
  proof -
    from write_ok(1) [OF that]
    have "err (write '' '' (writeVal L (VName (fst x)) t)) = None" by (rule writeVal_err)
    from write_ok(1) [OF this] show ?thesis by (rule writeVal_err)
  qed
  have step: "?R (?F x t) (?G x acc)"
    if x: "x \<in> set ?ord" and e: "err (?F x t) = None" and r: "?R t acc" for x t acc
  proof -
    let ?t1 = "writeVal L (VName (fst x)) t"
    let ?t2 = "write '' '' ?t1"
    let ?t3 = "writeVal L (snd x) ?t2"
    note f4 = write_ok [OF e]
    from f4(1) have e2: "err ?t2 = None" by (rule writeVal_err)
    note f2 = write_ok [OF e2]
    have t1: "?t1 = write (''/'' @ fst x) t" by simp
    from f2(1) have e1: "err (write (''/'' @ fst x) t) = None" by (simp only: t1)
    note f1 = write_ok [OF e1]
    from "7.IH"(2) [OF x, of t] f4(1)
    have "out (w ?t3) = out (w ?t2) @ fst (render L (snd x) (mapiter ?t2))"
      and "mapiter ?t3 = snd (render L (snd x) (mapiter ?t2))"
      by simp_all
    moreover have "mapiter ?t2 = snd acc" using r by simp
    moreover have "out (w ?t2) = out (w s) @ fst acc @ ''/'' @ fst x @ '' ''"
      using f2(2) f1(2) r by simp
    ultimately show ?thesis
      unfolding f4(2) f4(3) by simp
  qed
  have "err (range_next ?s1) = None"
    using fold_err_back [of ?ord ?F "range_next ?s1"] bk ft(1) by blast
  then have e1: "err ?s1 = None" by simp
  have init: "?R (range_next ?s1) (''<< '', tl (mapiter s))"
    using write_ok [OF e1] by simp
  have "?R ?t (fold ?G ?ord (''<< '', tl (mapiter s)))"
    by (rule fold_sim [where R = ?R, OF bk step ft(1) init])
  moreover have "?ord = map_order (mapiter s) v"
    by (simp add: range_order_map_order)
  ultimately show ?case
    using ft(2,3) by (simp add: Let_def)
next
  case (8 L dict filters b s)
  let ?b = "pipeline L filters b"
  let ?d = "VDict (with_Length ?b (with_Filter filters (case dict of None \<Rightarrow> [] | Some d \<Rightarrow> d)))"
  let ?t1 = "writeVal L ?d s"
  let ?t2 = "write (NL @ ''stream'' @ NL) ?t1"
  let ?t3 = "writeBytes ?b ?t2"
  have eq: "writeVal L (VStream dict filters b) s = write (NL @ ''endstream'') ?t3"
    by (simp add: Let_def fold_apply_filter stream_dict_spec)
  from "8.prems" have e4: "err (write (NL @ ''endstream'') ?t3) = None" by (simp only: eq)
  note f4 = write_ok [OF e4]
  note f3 = writeBytes_ok [OF f4(1)]
  note f2 = write_ok [OF f3(1)]
  have "out (w ?t1) = out (w s) @ fst (render L ?d (mapiter s)) \<and>
        mapiter ?t1 = snd (render L ?d (mapiter s))"
    using "8.IH" [OF refl refl] f2(1)
    by (simp only: fold_apply_filter stream_dict_spec)
  then show ?case
    unfolding eq f4(2) f4(3) f3(2) f2(2) by (simp add: Let_def f2(3))
qed (auto dest: write_ok)


subsection \<open>Entries in the serialized form of a dictionary\<close>

lemma dict_fold_extends:
  "\<exists>y. fst (fold (\<lambda>kv acc.
                (fst acc @ ''/'' @ fst kv @ '' '' @ fst (render L (snd kv) (snd acc)) @ '' '',
                 snd (render L (snd kv) (snd acc)))) xs acc) = fst acc @ y"
proof (induction xs arbitrary: acc)
  case Nil
  then show ?case by simp
next
  case (Cons x xs)
  let ?a = "(fst acc @ ''/'' @ fst x @ '' '' @ fst (render L (snd x) (snd acc)) @ '' '',
             snd (render L (snd x) (snd acc)))"
  from Cons [of ?a] show ?case by auto
qed

lemma dict_fold_contains:
  assumes "(k, v) \<in> set xs" and "\<forall>m. render L v m = (B, m)"
  shows "\<exists>pre post. fst (fold (\<lambda>kv acc.
                (fst acc @ ''/'' @ fst kv @ '' '' @ fst (render L (snd kv) (snd acc)) @ '' '',
                 snd (render L (snd kv) (snd acc)))) xs acc)
           = fst acc @ pre @ ''/'' @ k @ '' '' @ B @ '' '' @ post"
  using assms(1)
proof (induction xs arbitrary: acc)
  case Nil
  then show ?case by simp
next
  case (Cons x xs)
  let ?G = "\<lambda>kv acc.
                (fst acc @ ''/'' @ fst kv @ '' '' @ fst (render L (snd kv) (snd acc)) @ '' '',
                 snd (render L (snd kv) (snd acc)))"
  show ?case
  proof (cases "x = (k, v)")
    case True
    obtain y where "fst (fold ?G xs (?G x acc)) = fst (?G x acc) @ y"
      using dict_fold_extends [of L xs "?G x acc"] by blast
    then have "fst (fold ?G (x # xs) acc) = fst acc @ [] @ ''/'' @ k @ '' '' @ B @ '' '' @ y"
      using True assms(2) by simp
    then show ?thesis by blast
  next
    case False
    with Cons.prems have "(k, v) \<in> set xs" by simp
    from Cons.IH [OF this, of "?G x acc"] obtain pre post where
      "fst (fold ?G xs (?G x acc)) = fst (?G x acc) @ pre @ ''/'' @ k @ '' '' @ B @ '' '' @ post"
      by blast
    then have "fst (fold ?G (x # xs) acc) =
        fst acc @ (''/'' @ fst x @ '' '' @ fst (render L (snd x) (snd acc)) @ '' '' @ pre) @
        ''/'' @ k @ '' '' @ B @ '' '' @ post"
      by simp
    then show ?thesis by blast
  qed
qed

lemma render_dict_contains:
  assumes "(k, v) \<in> set d" and "\<forall>m. render L v m = (B, m)"
  shows "sublist (''/'' @ k @ '' '' @ B @ '' '') (fst (render L (VDict d) m))"
proof -
  from assms(1) have "(k, v) \<in> set (map_order m d)" by (simp add: set_map_order)
  from dict_fold_contains [OF this assms(2), of "(''<< '', tl m)"]
  obtain pre post where "fst (fold (\<lambda>kv acc.
                (fst acc @ ''/'' @ fst kv @ '' '' @ fst (render L (snd kv) (snd acc)) @ '' '',
                 snd (render L (snd kv) (snd acc)))) (map_order m d) (''<< '', tl m))
           = ''<< '' @ pre @ ''/'' @ k @ '' '' @ B @ '' '' @ post"
    by auto
  then have "fst (render L (VDict d) m) =
      (''<< '' @ pre) @ (''/'' @ k @ '' '' @ B @ '' '') @ (post @ ''>>'')"
    by (simp add: Let_def)
  then show ?thesis
    by (metis sublist_appendI)
qed

lemma pick_order_two: "pick_order r [a, b] = (if r mod 2 = 0 then [a, b] else [b, a])"
proof -
  have one: "pick_order q [x] = [x]" for q and x :: 'a
    by (simp add: pick_order.simps [of q "[x]"] pick_order.simps [of _ "[]"])
  have len: "length [a, b] = 2" by simp
  have e: "pick_order r [a, b] =
      [a, b] ! (r mod 2) # pick_order (r div 2) (take (r mod 2) [a, b] @ drop (Suc (r mod 2)) [a, b])"
    by (subst pick_order.simps, unfold len) simp
  consider "r mod 2 = 0" | "r mod 2 = 1" by arith
  then show ?thesis
  proof cases
    case 1
    show ?thesis unfolding e 1 by (simp add: one)
  next
    case 2
    show ?thesis unfolding e 2 by (simp add: one)
  qed
qed

lemma map_order_two: "map_order m [a, b] = [a, b] \<or> map_order m [a, b] = [b, a]"
  by (simp add: map_order_def pick_order_two split: list.split)

lemma render_two:
  assumes "\<forall>m. render L v1 m = (B1, m)" and "\<forall>m. render L v2 m = (B2, m)"
  shows "fst (render L (VDict [(k1, v1), (k2, v2)]) m)
           = ''<< /'' @ k1 @ '' '' @ B1 @ '' /'' @ k2 @ '' '' @ B2 @ '' >>'' \<or>
         fst (render L (VDict [(k1, v1), (k2, v2)]) m)
           = ''<< /'' @ k2 @ '' '' @ B2 @ '' /'' @ k1 @ '' '' @ B1 @ '' >>''"
  using map_order_two [of m "(k1, v1)" "(k2, v2)"] assms
  by (auto simp: Let_def)

subsection \<open>Objects and the tail of the file\<close>

lemma pos_out_writeBytes:
  "pos (writeBytes b s) - int (length (out (w (writeBytes b s)))) = pos s - int (length (out (w s)))"
  using writeBytes_out [of b s] by auto

lemma pos_out_writeVal:
  "pos (writeVal L v s) - int (length (out (w (writeVal L v s)))) = pos s - int (length (out (w s)))"
  by (rule writeVal_preserves
        [where P = "\<lambda>t. pos t - int (length (out (w t))) = pos s - int (length (out (w s)))"])
     (simp_all add: pos_out_writeBytes)

lemma WriteObject_render:
  assumes "err (snd (WriteObject L v s)) = None"
  shows "out (w (snd (WriteObject L v s))) =
           out (w s) @ obj_header (Suc (length (objOffsets s))) @ fst (render L v (mapiter s)) @
           NL @ ''endobj'' @ NL"
    and "mapiter (snd (WriteObject L v s)) = snd (render L v (mapiter s))"
    and "pos (snd (WriteObject L v s)) =
           pos s + int (length (obj_header (Suc (length (objOffsets s))) @
                                fst (render L v (mapiter s)) @ NL @ ''endobj'' @ NL))"
proof -
  let ?s1 = "s\<lparr>objOffsets := objOffsets s @ [pos s]\<rparr>"
  let ?s2 = "writeBytes (obj_header (Suc (length (objOffsets s)))) ?s1"
  let ?s3 = "writeVal L v ?s2"
  let ?s4 = "writeBytes (NL @ ''endobj'' @ NL) ?s3"
  from assms have e4: "err ?s4 = None" by (simp add: WriteObject_unfold)
  note f4 = writeBytes_ok [OF e4]
  note r3 = writeVal_render [OF f4(1)]
  from f4(1) have e2: "err ?s2 = None" by (rule writeVal_err)
  note f2 = writeBytes_ok [OF e2]
  have m2: "mapiter ?s2 = mapiter s" by simp
  have o4: "out (w ?s4) =
      out (w s) @ obj_header (Suc (length (objOffsets s))) @ fst (render L v (mapiter s)) @
      NL @ ''endobj'' @ NL"
    using f4(2) r3 f2(2) by (simp add: m2)
  then show "out (w (snd (WriteObject L v s))) =
           out (w s) @ obj_header (Suc (length (objOffsets s))) @ fst (render L v (mapiter s)) @
           NL @ ''endobj'' @ NL"
    by (simp add: WriteObject_unfold)
  show "mapiter (snd (WriteObject L v s)) = snd (render L v (mapiter s))"
    using r3 by (simp add: WriteObject_unfold m2)
  have "pos ?s4 - int (length (out (w ?s4))) = pos s - int (length (out (w s)))"
    using pos_out_writeBytes [of "NL @ ''endobj'' @ NL" ?s3] pos_out_writeVal [of L v ?s2]
      pos_out_writeBytes [of "obj_header (Suc (length (objOffsets s)))" ?s1]
    by simp
  then have "pos ?s4 = pos s + int (length (obj_header (Suc (length (objOffsets s))) @
                                fst (render L v (mapiter s)) @ NL @ ''endobj'' @ NL))"
    unfolding o4 by simp
  then show "pos (snd (WriteObject L v s)) =
           pos s + int (length (obj_header (Suc (length (objOffsets s))) @
                                fst (render L v (mapiter s)) @ NL @ ''endobj'' @ NL))"
    by (simp add: WriteObject_unfold)
qed

lemma mapiter_fold_write [simp]: "mapiter (fold (\<lambda>x. write (g x)) xs s) = mapiter s"
  by (induction xs arbitrary: s) simp_all

lemma Close_xref_render:
  assumes "err (Close_xref L r s) = None"
  shows "out (w (Close_xref L r s)) =
           out (w s) @ xref_section (objOffsets s) @ ''trailer'' @ NL @
           fst (render L (Close_trailer r s) (mapiter s)) @ NL @
           ''starxref'' @ NL @ fmt_d (pos s) @ NL @ ''%%EOF''"
proof -
  let ?h = "''xref'' @ NL @ ''0 '' @ fmt_d (int (length (objOffsets s)) + 1) @ NL @
            ''0000000000 65535 f'' @ NL"
  let ?s1 = "writeBytes ?h s"
  let ?s2 = "fold (\<lambda>objOffset. write (xref_entry objOffset)) (objOffsets ?s1) ?s1"
  let ?s3 = "writeBytes (''trailer'' @ NL) ?s2"
  let ?s4 = "writeVal L (Close_trailer r ?s3) ?s3"
  let ?f = "NL @ ''starxref'' @ NL @ fmt_d (pos s) @ NL @ ''%%EOF''"
  let ?s5 = "writeBytes ?f ?s4"
  have eq: "Close_xref L r s = ?s5"
    by (simp add: Close_xref_def Let_def write_writeBytes)
  from assms have e5: "err ?s5 = None" by (simp only: eq)
  note o5 = writeBytes_ok(2) [OF e5]
  from writeBytes_ok(1) [OF e5] have e4: "err ?s4 = None" .
  note r4 = writeVal_render [OF e4]
  from e4 have e3: "err ?s3 = None" by (rule writeVal_err)
  note o3 = writeBytes_ok(2) [OF e3]
  from writeBytes_ok(1) [OF e3] have e2: "err ?s2 = None" .
  from fold_write_ok [OF e2] have e1: "err ?s1 = None"
    and o2: "out (w ?s2) = out (w ?s1) @ concat (map xref_entry (objOffsets ?s1))"
    by simp_all
  note o1 = writeBytes_ok(2) [OF e1]
  have m3: "mapiter ?s3 = mapiter s"
    by (simp add: write_writeBytes [symmetric])
  have t3: "Close_trailer r ?s3 = Close_trailer r s"
    by (simp add: Close_trailer_def)
  have "out (w ?s5) = out (w s) @ xref_section (objOffsets s) @ ''trailer'' @ NL @
           fst (render L (Close_trailer r s) (mapiter s)) @ ?f"
    using o5 r4 o3 o2 o1 unfolding m3 t3 by (simp add: xref_section_def)
  then show ?thesis
    unfolding eq by simp
qed


lemma Close_render:
  assumes ok: "fst (Close L s) = None"
  shows "let n = int (length (objOffsets s));
             page = render L (Close_page s) (mapiter s);
             pages = render L (Close_pages (n + 1)) (snd page);
             catalog = render L (Close_catalog (n + 2)) (snd pages);
             trailer = render L (VDict [(''Root'', VRef (n + 3)), (''Size'', VInt (n + 3))]) (snd catalog);
             o1 = obj_header (nat n + 1) @ fst page @ NL @ ''endobj'' @ NL;
             o2 = obj_header (nat n + 2) @ fst pages @ NL @ ''endobj'' @ NL;
             o3 = obj_header (nat n + 3) @ fst catalog @ NL @ ''endobj'' @ NL
         in objOffsets (snd (Close L s)) =
              objOffsets s @ [pos s, pos s + int (length o1), pos s + int (length (o1 @ o2))] \<and>
            out (w (snd (Close L s))) =
              out (w s) @ o1 @ o2 @ o3 @ xref_section (objOffsets (snd (Close L s))) @
              ''trailer'' @ NL @ fst trailer @ NL @
              ''starxref'' @ NL @ fmt_d (pos s + int (length (o1 @ o2 @ o3))) @ NL @ ''%%EOF''"
proof -
  define k where "k = length (objOffsets s)"
  define n where "n = int k"
  define page where "page = render L (Close_page s) (mapiter s)"
  define pages where "pages = render L (Close_pages (n + 1)) (snd page)"
  define catalog where "catalog = render L (Close_catalog (n + 2)) (snd pages)"
  define trailer where
    "trailer = render L (VDict [(''Root'', VRef (n + 3)), (''Size'', VInt (n + 3))]) (snd catalog)"
  define o1 where "o1 = obj_header (nat n + 1) @ fst page @ NL @ ''endobj'' @ NL"
  define o2 where "o2 = obj_header (nat n + 2) @ fst pages @ NL @ ''endobj'' @ NL"
  define o3 where "o3 = obj_header (nat n + 3) @ fst catalog @ NL @ ''endobj'' @ NL"
  define q1 where "q1 = snd (WriteObject L (Close_page s) s)"
  define q2 where "q2 = snd (WriteObject L (Close_pages (n + 1)) q1)"
  define q3 where "q3 = snd (WriteObject L (Close_catalog (n + 2)) q2)"
  have h1: "Suc k = nat n + 1" and h2: "Suc (Suc k) = nat n + 2" and h3: "Suc (Suc (Suc k)) = nat n + 3"
    by (simp_all add: n_def)
  have l1: "objOffsets q1 = objOffsets s @ [pos s]"
    by (simp add: q1_def objOffsets_WriteObject)
  have l2: "objOffsets q2 = objOffsets s @ [pos s, pos q1]"
    by (simp add: q2_def objOffsets_WriteObject l1)
  have l3: "objOffsets q3 = objOffsets s @ [pos s, pos q1, pos q2]"
    by (simp add: q3_def objOffsets_WriteObject l2)
  have f1: "fst (WriteObject L (Close_page s) s) = n + 1"
    by (simp add: fst_WriteObject n_def k_def)
  have f2: "fst (WriteObject L (Close_pages (n + 1)) q1) = n + 2"
    by (simp add: fst_WriteObject l1 n_def k_def)
  have f3: "fst (WriteObject L (Close_catalog (n + 2)) q2) = n + 3"
    by (simp add: fst_WriteObject l2 n_def k_def)
  have c: "snd (Close L s) = Close_xref L (n + 3) q3"
    by (simp only: Close_unfold Let_def snd_conv f1 q1_def [symmetric] f2 q2_def [symmetric]
          f3 q3_def [symmetric])
  from ok have e: "err (Close_xref L (n + 3) q3) = None"
    by (simp add: fst_Close c)
  from Close_xref_ok(1) [OF e] have e3: "err q3 = None" .
  then have e3': "err (snd (WriteObject L (Close_catalog (n + 2)) q2)) = None"
    by (simp only: q3_def)
  from WriteObject_ok(1) [OF e3'] have e2: "err q2 = None" .
  then have e2': "err (snd (WriteObject L (Close_pages (n + 1)) q1)) = None"
    by (simp only: q2_def)
  from WriteObject_ok(1) [OF e2'] have e1: "err q1 = None" .
  then have e1': "err (snd (WriteObject L (Close_page s) s)) = None"
    by (simp only: q1_def)
  note w1 = WriteObject_render [OF e1', folded q1_def page_def k_def, unfolded h1, folded o1_def]
  have k1: "Suc (length (objOffsets q1)) = nat n + 2"
    by (simp add: l1 n_def k_def)
  note w2 = WriteObject_render [OF e2', folded q2_def, unfolded w1(2) k1, folded pages_def,
      folded o2_def]
  have k2: "Suc (length (objOffsets q2)) = nat n + 3"
    by (simp add: l2 n_def k_def)
  note w3 = WriteObject_render [OF e3', folded q3_def, unfolded w2(2) k2, folded catalog_def,
      folded o3_def]
  have t: "Close_trailer (n + 3) q3 = VDict [(''Root'', VRef (n + 3)), (''Size'', VInt (n + 3))]"
    by (simp add: Close_trailer_def l3 n_def k_def)
  note x = Close_xref_render [OF e, unfolded t w3(2), folded trailer_def]
  have p1: "pos q1 = pos s + int (length o1)" by (rule w1(3))
  have p2: "pos q2 = pos s + int (length (o1 @ o2))"
    using w2(3) p1 by simp
  have p3: "pos q3 = pos s + int (length (o1 @ o2 @ o3))"
    using w3(3) p2 by simp
  have offs: "objOffsets (snd (Close L s)) =
      objOffsets s @ [pos s, pos s + int (length o1), pos s + int (length (o1 @ o2))]"
    unfolding c by (simp add: l3 p1 p2)
  have o: "out (w q3) = out (w s) @ o1 @ o2 @ o3"
    using w3(1) w2(1) w1(1) by simp
  have "objOffsets (Close_xref L (n + 3) q3) = objOffsets q3" by simp
  then have "out (w (snd (Close L s))) =
      out (w s) @ o1 @ o2 @ o3 @ xref_section (objOffsets (snd (Close L s))) @
      ''trailer'' @ NL @ fst trailer @ NL @
      ''starxref'' @ NL @ fmt_d (pos s + int (length (o1 @ o2 @ o3))) @ NL @ ''%%EOF''"
    unfolding c x o p3 by simp
  with offs show ?thesis
    unfolding Let_def k_def [symmetric] n_def [symmetric] page_def [symmetric]
      pages_def [symmetric] catalog_def [symmetric] trailer_def [symmetric]
      o1_def [symmetric] o2_def [symmetric] o3_def [symmetric]
    by blast
qed


lemma fmt_d_3: "fmt_d 3 = ''3''"
  by (simp add: fmt_d_def digits.simps [of 3] digit_char_def)

text \<open>
  C4. \<^verbatim>\<open>Close\<close> on a writer with \<open>n\<close> recorded objects calls \<^verbatim>\<open>WriteObject\<close> three
  times, for the Page, the Pages and the Catalog dictionary in this order, and
  the calls return the references \<open>n + 1\<close>, \<open>n + 2\<close> and \<open>n + 3\<close>. The \<^verbatim>\<open>Parent\<close>
  entry of the Page, computed as \<open>n + 2\<close> before the Page is written, is the
  reference the second call returns for the Pages; \<^verbatim>\<open>Kids\<close> of the Pages holds
  the Page's reference, \<^verbatim>\<open>Pages\<close> of the Catalog the Pages' reference, \<^verbatim>\<open>Root\<close> of
  the trailer the Catalog's reference, and \<^verbatim>\<open>Size\<close> of the trailer is \<open>n + 3\<close>.

  The same holds of the bytes. The serialized Page holds \<^verbatim>\<open>/Parent\<close> with the
  reference \<open>n + 2\<close>, the serialized Pages holds \<^verbatim>\<open>/Kids\<close> with the reference
  \<open>n + 1\<close>, the serialized Catalog is \<^verbatim>\<open>/Type /Catalog\<close> and \<^verbatim>\<open>/Pages\<close> with the
  reference \<open>n + 2\<close> in either order, and the serialized trailer is \<^verbatim>\<open>/Root\<close>
  with the reference \<open>n + 3\<close> and \<^verbatim>\<open>/Size\<close> \<open>n + 3\<close> in either order, so
  \<^verbatim>\<open>/Size 3\<close> for \<open>n = 0\<close>. When \<^verbatim>\<open>Close\<close> returns nil, the output is the output
  before the call followed by the object \<open>n + 1\<close> with the serialized Page, the
  object \<open>n + 2\<close> with the serialized Pages, the object \<open>n + 3\<close> with the
  serialized Catalog, the cross-reference section for the offset table, which
  has gained the three positions at which these objects begin, the trailer
  line, the serialized trailer and the footer with the position of the
  cross-reference section.
\<close>

theorem C4_close_chain:
  "let n = int (length (objOffsets s));
       r1 = WriteObject L (Close_page s) s;
       r2 = WriteObject L (Close_pages (fst r1)) (snd r1);
       r3 = WriteObject L (Close_catalog (fst r2)) (snd r2);
       page = render L (Close_page s) (mapiter s);
       pages = render L (Close_pages (n + 1)) (snd page);
       catalog = render L (Close_catalog (n + 2)) (snd pages);
       trailer = render L (VDict [(''Root'', VRef (n + 3)), (''Size'', VInt (n + 3))]) (snd catalog);
       o1 = obj_header (nat n + 1) @ fst page @ NL @ ''endobj'' @ NL;
       o2 = obj_header (nat n + 2) @ fst pages @ NL @ ''endobj'' @ NL;
       o3 = obj_header (nat n + 3) @ fst catalog @ NL @ ''endobj'' @ NL
   in snd (Close L s) = Close_xref L (fst r3) (snd r3) \<and>
      fst r1 = n + 1 \<and> fst r2 = n + 2 \<and> fst r3 = n + 3 \<and>
      dict_get (entries (Close_page s)) ''Type'' = Some (VName ''Page'') \<and>
      dict_get (entries (Close_page s)) ''Parent'' = Some (VRef (n + 2)) \<and>
      dict_get (entries (Close_page s)) ''Parent'' = Some (VRef (fst r2)) \<and>
      dict_get (entries (Close_pages (fst r1))) ''Type'' = Some (VName ''Pages'') \<and>
      dict_get (entries (Close_pages (fst r1))) ''Kids'' = Some (VArray [VRef (fst r1)]) \<and>
      dict_get (entries (Close_catalog (fst r2))) ''Type'' = Some (VName ''Catalog'') \<and>
      dict_get (entries (Close_catalog (fst r2))) ''Pages'' = Some (VRef (fst r2)) \<and>
      Close_trailer (fst r3) (snd r3) = VDict [(''Root'', VRef (fst r3)), (''Size'', VInt (n + 3))] \<and>
      (n = 0 \<longrightarrow> dict_get (entries (Close_trailer (fst r3) (snd r3))) ''Size'' = Some (VInt 3)) \<and>
      sublist ''/Type /Page '' (fst page) \<and>
      sublist (''/Parent '' @ fmt_d (n + 2) @ '' 0 R '') (fst page) \<and>
      sublist ''/Type /Pages '' (fst pages) \<and>
      sublist (''/Kids ['' @ fmt_d (n + 1) @ '' 0 R] '') (fst pages) \<and>
      (fst catalog = ''<< /Type /Catalog /Pages '' @ fmt_d (n + 2) @ '' 0 R >>'' \<or>
       fst catalog = ''<< /Pages '' @ fmt_d (n + 2) @ '' 0 R /Type /Catalog >>'') \<and>
      (fst trailer = ''<< /Root '' @ fmt_d (n + 3) @ '' 0 R /Size '' @ fmt_d (n + 3) @ '' >>'' \<or>
       fst trailer = ''<< /Size '' @ fmt_d (n + 3) @ '' /Root '' @ fmt_d (n + 3) @ '' 0 R >>'') \<and>
      (n = 0 \<longrightarrow>
         fst trailer = ''<< /Root 3 0 R /Size 3 >>'' \<or> fst trailer = ''<< /Size 3 /Root 3 0 R >>'') \<and>
      (fst (Close L s) = None \<longrightarrow>
         objOffsets (snd (Close L s)) =
           objOffsets s @ [pos s, pos s + int (length o1), pos s + int (length (o1 @ o2))] \<and>
         out (w (snd (Close L s))) =
           out (w s) @ o1 @ o2 @ o3 @ xref_section (objOffsets (snd (Close L s))) @
           ''trailer'' @ NL @ fst trailer @ NL @
           ''starxref'' @ NL @ fmt_d (pos s + int (length (o1 @ o2 @ o3))) @ NL @ ''%%EOF'')"
proof -
  define n where "n = int (length (objOffsets s))"
  define r1 where "r1 = WriteObject L (Close_page s) s"
  define r2 where "r2 = WriteObject L (Close_pages (fst r1)) (snd r1)"
  define r3 where "r3 = WriteObject L (Close_catalog (fst r2)) (snd r2)"
  define page where "page = render L (Close_page s) (mapiter s)"
  define pages where "pages = render L (Close_pages (n + 1)) (snd page)"
  define catalog where "catalog = render L (Close_catalog (n + 2)) (snd pages)"
  define trailer where
    "trailer = render L (VDict [(''Root'', VRef (n + 3)), (''Size'', VInt (n + 3))]) (snd catalog)"
  define o1 where "o1 = obj_header (nat n + 1) @ fst page @ NL @ ''endobj'' @ NL"
  define o2 where "o2 = obj_header (nat n + 2) @ fst pages @ NL @ ''endobj'' @ NL"
  define o3 where "o3 = obj_header (nat n + 3) @ fst catalog @ NL @ ''endobj'' @ NL"
  note defs = n_def r1_def r2_def r3_def page_def pages_def catalog_def trailer_def
    o1_def o2_def o3_def
  note refs = Close_chain_refs [of s L, unfolded Let_def, folded n_def r1_def,
      folded r2_def, folded r3_def]
  have ref: "render L (VRef i) m = (fmt_d i @ '' 0 R'', m)" for i m by simp
  have nam: "render L (VName x) m = (''/'' @ x, m)" for x m by simp
  have num: "render L (VInt i) m = (fmt_d i, m)" for i m by simp
  have arr: "render L (VArray [VRef i]) m = (''['' @ fmt_d i @ '' 0 R]'', m)" for i m
    by (simp add: Let_def)
  have a: "sublist ''/Type /Page '' (fst page)"
    using render_dict_contains [of "''Type''" "VName ''Page''" "entries (Close_page s)" L "''/Page''"
        "mapiter s"] nam
    by (simp add: page_def Close_page_def)
  have b: "sublist (''/Parent '' @ fmt_d (n + 2) @ '' 0 R '') (fst page)"
    using render_dict_contains [of "''Parent''" "VRef (n + 2)" "entries (Close_page s)" L
        "fmt_d (n + 2) @ '' 0 R''" "mapiter s"] ref
    by (simp add: page_def Close_page_def n_def)
  have c: "sublist ''/Type /Pages '' (fst pages)"
    using render_dict_contains [of "''Type''" "VName ''Pages''" "entries (Close_pages (n + 1))" L
        "''/Pages''" "snd page"] nam
    by (simp add: pages_def Close_pages_def)
  have d: "sublist (''/Kids ['' @ fmt_d (n + 1) @ '' 0 R] '') (fst pages)"
    using render_dict_contains [of "''Kids''" "VArray [VRef (n + 1)]" "entries (Close_pages (n + 1))" L
        "''['' @ fmt_d (n + 1) @ '' 0 R]''" "snd page"] arr
    by (simp add: pages_def Close_pages_def)
  have e: "fst catalog = ''<< /Type /Catalog /Pages '' @ fmt_d (n + 2) @ '' 0 R >>'' \<or>
       fst catalog = ''<< /Pages '' @ fmt_d (n + 2) @ '' 0 R /Type /Catalog >>''"
    using render_two [of L "VName ''Catalog''" "''/Catalog''" "VRef (n + 2)" "fmt_d (n + 2) @ '' 0 R''"
        "''Type''" "''Pages''" "snd pages"] nam ref
    by (simp add: catalog_def Close_catalog_def)
  have f: "fst trailer = ''<< /Root '' @ fmt_d (n + 3) @ '' 0 R /Size '' @ fmt_d (n + 3) @ '' >>'' \<or>
       fst trailer = ''<< /Size '' @ fmt_d (n + 3) @ '' /Root '' @ fmt_d (n + 3) @ '' 0 R >>''"
    using render_two [of L "VRef (n + 3)" "fmt_d (n + 3) @ '' 0 R''" "VInt (n + 3)" "fmt_d (n + 3)"
        "''Root''" "''Size''" "snd catalog"] ref num
    by (simp add: trailer_def)
  have g: "fst trailer = ''<< /Root 3 0 R /Size 3 >>'' \<or> fst trailer = ''<< /Size 3 /Root 3 0 R >>''"
    if "n = 0"
    using f unfolding that by (simp add: fmt_d_3)
  have h: "objOffsets (snd (Close L s)) =
           objOffsets s @ [pos s, pos s + int (length o1), pos s + int (length (o1 @ o2))] \<and>
         out (w (snd (Close L s))) =
           out (w s) @ o1 @ o2 @ o3 @ xref_section (objOffsets (snd (Close L s))) @
           ''trailer'' @ NL @ fst trailer @ NL @
           ''starxref'' @ NL @ fmt_d (pos s + int (length (o1 @ o2 @ o3))) @ NL @ ''%%EOF''"
    if "fst (Close L s) = None"
    using Close_render [OF that] unfolding Let_def defs by blast
  from refs a b c d e f g h show ?thesis
    unfolding Let_def defs [symmetric] by blast
qed


theorem C4_close_chain_witness:
  "int (length (objOffsets new_writer)) = 0 \<and>
   fst (Close example_Lib new_writer) = None \<and>
   objOffsets (snd (Close example_Lib new_writer)) = [9, 135, 192] \<and>
   out (w (snd (Close example_Lib new_writer))) =
     ''%PDF-1.7'' @ NL @
     ''1 0 obj'' @ NL @
     ''<< /Type /Page /Parent 2 0 R /MediaBox [0 0 0 0] /Resources << /ExtGState << >> /Font << >> >> /Contents [] >>'' @ NL @
     ''endobj'' @ NL @
     ''2 0 obj'' @ NL @ ''<< /Type /Pages /Kids [1 0 R] /Count 1 >>'' @ NL @ ''endobj'' @ NL @
     ''3 0 obj'' @ NL @ ''<< /Type /Catalog /Pages 2 0 R >>'' @ NL @ ''endobj'' @ NL @
     ''xref'' @ NL @ ''0 4'' @ NL @ ''0000000000 65535 f'' @ NL @
     ''0000000009 00000 n'' @ NL @ ''0000000135 00000 n'' @ NL @ ''0000000192 00000 n'' @ NL @
     ''trailer'' @ NL @ ''<< /Root 3 0 R /Size 3 >>'' @ NL @
     ''starxref'' @ NL @ ''241'' @ NL @ ''%%EOF''"
proof -
  have n: "int (length (objOffsets new_writer)) = 0" by code_simp
  have h: "healthy new_writer" by code_simp
  have ok: "fst (Close example_Lib new_writer) = None"
    using healthy_Close [OF h, of example_Lib] by (simp add: fst_Close healthy_def)
  note c = C4_close_chain [of new_writer example_Lib, unfolded Let_def]
  have 1: "objOffsets (snd (Close example_Lib new_writer)) =
     (let n = int (length (objOffsets new_writer));
          page = render example_Lib (Close_page new_writer) (mapiter new_writer);
          pages = render example_Lib (Close_pages (n + 1)) (snd page);
          catalog = render example_Lib (Close_catalog (n + 2)) (snd pages);
          trailer = render example_Lib (VDict [(''Root'', VRef (n + 3)), (''Size'', VInt (n + 3))])
                      (snd catalog);
          o1 = obj_header (nat n + 1) @ fst page @ NL @ ''endobj'' @ NL;
          o2 = obj_header (nat n + 2) @ fst pages @ NL @ ''endobj'' @ NL;
          o3 = obj_header (nat n + 3) @ fst catalog @ NL @ ''endobj'' @ NL
      in objOffsets new_writer @
           [pos new_writer, pos new_writer + int (length o1), pos new_writer + int (length (o1 @ o2))])"
    using c ok unfolding Let_def by blast
  have ev_offs: "(let n = int (length (objOffsets new_writer));
          page = render example_Lib (Close_page new_writer) (mapiter new_writer);
          pages = render example_Lib (Close_pages (n + 1)) (snd page);
          catalog = render example_Lib (Close_catalog (n + 2)) (snd pages);
          trailer = render example_Lib (VDict [(''Root'', VRef (n + 3)), (''Size'', VInt (n + 3))])
                      (snd catalog);
          o1 = obj_header (nat n + 1) @ fst page @ NL @ ''endobj'' @ NL;
          o2 = obj_header (nat n + 2) @ fst pages @ NL @ ''endobj'' @ NL;
          o3 = obj_header (nat n + 3) @ fst catalog @ NL @ ''endobj'' @ NL
      in objOffsets new_writer @
           [pos new_writer, pos new_writer + int (length o1), pos new_writer + int (length (o1 @ o2))]) = [9, 135, 192]"
    by code_simp
  from 1 ev_offs have offs: "objOffsets (snd (Close example_Lib new_writer)) = [9, 135, 192]"
    by (rule trans)
  have 2: "out (w (snd (Close example_Lib new_writer))) =
     (let n = int (length (objOffsets new_writer));
          page = render example_Lib (Close_page new_writer) (mapiter new_writer);
          pages = render example_Lib (Close_pages (n + 1)) (snd page);
          catalog = render example_Lib (Close_catalog (n + 2)) (snd pages);
          trailer = render example_Lib (VDict [(''Root'', VRef (n + 3)), (''Size'', VInt (n + 3))])
                      (snd catalog);
          o1 = obj_header (nat n + 1) @ fst page @ NL @ ''endobj'' @ NL;
          o2 = obj_header (nat n + 2) @ fst pages @ NL @ ''endobj'' @ NL;
          o3 = obj_header (nat n + 3) @ fst catalog @ NL @ ''endobj'' @ NL
      in out (w new_writer) @ o1 @ o2 @ o3 @ xref_section (objOffsets (snd (Close example_Lib new_writer))) @
         ''trailer'' @ NL @ fst trailer @ NL @
         ''starxref'' @ NL @ fmt_d (pos new_writer + int (length (o1 @ o2 @ o3))) @ NL @ ''%%EOF'')"
    using c ok unfolding Let_def by blast
  have ev_out: "(let n = int (length (objOffsets new_writer));
          page = render example_Lib (Close_page new_writer) (mapiter new_writer);
          pages = render example_Lib (Close_pages (n + 1)) (snd page);
          catalog = render example_Lib (Close_catalog (n + 2)) (snd pages);
          trailer = render example_Lib (VDict [(''Root'', VRef (n + 3)), (''Size'', VInt (n + 3))])
                      (snd catalog);
          o1 = obj_header (nat n + 1) @ fst page @ NL @ ''endobj'' @ NL;
          o2 = obj_header (nat n + 2) @ fst pages @ NL @ ''endobj'' @ NL;
          o3 = obj_header (nat n + 3) @ fst catalog @ NL @ ''endobj'' @ NL
      in out (w new_writer) @ o1 @ o2 @ o3 @ xref_section ([9, 135, 192]) @
         ''trailer'' @ NL @ fst trailer @ NL @
         ''starxref'' @ NL @ fmt_d (pos new_writer + int (length (o1 @ o2 @ o3))) @ NL @ ''%%EOF'') =
     ''%PDF-1.7'' @ NL @
     ''1 0 obj'' @ NL @
     ''<< /Type /Page /Parent 2 0 R /MediaBox [0 0 0 0] /Resources << /ExtGState << >> /Font << >> >> /Contents [] >>'' @ NL @
     ''endobj'' @ NL @
     ''2 0 obj'' @ NL @ ''<< /Type /Pages /Kids [1 0 R] /Count 1 >>'' @ NL @ ''endobj'' @ NL @
     ''3 0 obj'' @ NL @ ''<< /Type /Catalog /Pages 2 0 R >>'' @ NL @ ''endobj'' @ NL @
     ''xref'' @ NL @ ''0 4'' @ NL @ ''0000000000 65535 f'' @ NL @
     ''0000000009 00000 n'' @ NL @ ''0000000135 00000 n'' @ NL @ ''0000000192 00000 n'' @ NL @
     ''trailer'' @ NL @ ''<< /Root 3 0 R /Size 3 >>'' @ NL @
     ''starxref'' @ NL @ ''241'' @ NL @ ''%%EOF''"
    by code_simp
  from 2 [unfolded offs] ev_out have
    "out (w (snd (Close example_Lib new_writer))) =
     ''%PDF-1.7'' @ NL @
     ''1 0 obj'' @ NL @
     ''<< /Type /Page /Parent 2 0 R /MediaBox [0 0 0 0] /Resources << /ExtGState << >> /Font << >> >> /Contents [] >>'' @ NL @
     ''endobj'' @ NL @
     ''2 0 obj'' @ NL @ ''<< /Type /Pages /Kids [1 0 R] /Count 1 >>'' @ NL @ ''endobj'' @ NL @
     ''3 0 obj'' @ NL @ ''<< /Type /Catalog /Pages 2 0 R >>'' @ NL @ ''endobj'' @ NL @
     ''xref'' @ NL @ ''0 4'' @ NL @ ''0000000000 65535 f'' @ NL @
     ''0000000009 00000 n'' @ NL @ ''0000000135 00000 n'' @ NL @ ''0000000192 00000 n'' @ NL @
     ''trailer'' @ NL @ ''<< /Root 3 0 R /Size 3 >>'' @ NL @
     ''starxref'' @ NL @ ''241'' @ NL @ ''%%EOF''"
    by (rule trans)
  with n ok offs show ?thesis by blast
qed

end
